theory Spec2Isabelle
  imports Complex_Main "HOL-Library.Sublist"
begin

chapter \<open>Model\<close>

section \<open>Planner: transient API errors and backoff\<close>

text \<open>
  \<^verbatim>\<open>classifyError\<close> of the planner returns one of \<^verbatim>\<open>'tpm' | 'rpm' | 'server' | 'fatal'\<close>;
  \<^verbatim>\<open>backoffMs\<close> accepts only the three retryable kinds.
\<close>

datatype retryKind = Tpm | Rpm | Server

datatype errorKind = Retryable retryKind | Fatal

text \<open>\<^verbatim>\<open>String.prototype.includes\<close>: the argument occurs as a contiguous substring.\<close>

fun str_includes :: "string \<Rightarrow> string \<Rightarrow> bool" where
  "str_includes [] sub = (sub = [])"
| "str_includes (c # cs) sub = (prefix sub (c # cs) \<or> str_includes cs sub)"

definition classifyError :: "string \<Rightarrow> errorKind" where
  "classifyError msg =
     (if str_includes msg ''429'' \<or> str_includes msg ''rate'' then
        (if str_includes msg ''tokens per minute'' \<or> str_includes msg ''input tokens per minute'' \<or>
            str_includes msg ''output tokens per minute'' then Retryable Tpm
         else Retryable Rpm)
      else if str_includes msg ''500'' \<or> str_includes msg ''502'' \<or> str_includes msg ''503'' \<or>
              str_includes msg ''529'' \<or> str_includes msg ''overloaded'' then Retryable Server
      else Fatal)"

text \<open>
  \<^verbatim>\<open>backoffMs(kind, attempt)\<close>. The source computes in binary64; the attempt is the loop
  counter of \<^verbatim>\<open>callLLMWithRetry\<close>, a natural number. Every product below the cap is an
  integer or a half-integer under \<open>10\<^sup>5\<close> and so exact in binary64, and every product above the
  cap is replaced by the cap, so the real-valued function below returns what the source returns.
\<close>

definition backoffMs :: "retryKind \<Rightarrow> nat \<Rightarrow> real" where
  "backoffMs kind attempt =
     (case kind of
        Tpm \<Rightarrow> min (15000 * (3 / 2) ^ attempt) 65000
      | Rpm \<Rightarrow> min (5000 * 2 ^ attempt) 60000
      | Server \<Rightarrow> min (2000 * 2 ^ attempt) 16000)"

text \<open>The caps the specification states for the three kinds, in milliseconds.\<close>

definition backoffCap :: "retryKind \<Rightarrow> real" where
  "backoffCap kind = (case kind of Tpm \<Rightarrow> 65000 | Rpm \<Rightarrow> 60000 | Server \<Rightarrow> 16000)"


section \<open>Strings\<close>

text \<open>
  JavaScript strings are sequences of UTF-16 code units and \<^verbatim>\<open>length\<close> counts units. A
  \<^typ>\<open>string\<close> here is a list of units, one \<^typ>\<open>char\<close> each; the ellipsis U+2026, a
  single unit, is represented by the otherwise unused character 0x85.
\<close>

definition ellipsis :: string where
  "ellipsis = [CHR 0x85]"

text \<open>Decimal rendering of a non-negative integer, as template literals do.\<close>

definition digitChar :: "nat \<Rightarrow> char" where
  "digitChar d = char_of (48 + d)"

fun showNat :: "nat \<Rightarrow> string" where
  "showNat n = (if n < 10 then [digitChar n] else showNat (n div 10) @ [digitChar (n mod 10)])"

declare showNat.simps [simp del]

text \<open>\<^verbatim>\<open>Array.prototype.join\<close>.\<close>

fun join :: "string \<Rightarrow> string list \<Rightarrow> string" where
  "join sep [] = []"
| "join sep [x] = x"
| "join sep (x # y # ys) = x @ sep @ join sep (y # ys)"

section \<open>Snapshot builder: the ref table\<close>

text \<open>
  A DOM element is identified by its object identity, a natural number. The module state of
  the parser: \<^verbatim>\<open>refCounter\<close>, \<^verbatim>\<open>elementsByRef\<close> (a \<^verbatim>\<open>Map\<close> from ref to
  \<^verbatim>\<open>WeakRef<Element>\<close>) and \<^verbatim>\<open>refsByElement\<close> (a \<^verbatim>\<open>WeakMap\<close>).
\<close>

type_synonym elemId = nat

record refState =
  refCounter :: nat
  elementsByRef :: "string \<rightharpoonup> elemId"
  refsByElement :: "elemId \<rightharpoonup> string"

text \<open>
  \<^verbatim>\<open>WeakRef.deref\<close>: the element, unless it has been reclaimed. Which elements are still
  alive is the garbage collector's business and a parameter here.
\<close>

definition deref :: "(elemId \<Rightarrow> bool) \<Rightarrow> elemId \<Rightarrow> elemId option" where
  "deref alive e = (if alive e then Some e else None)"

definition refName :: "nat \<Rightarrow> string" where
  "refName n = ''e'' @ showNat n"

definition freshRef :: "elemId \<Rightarrow> refState \<Rightarrow> string \<times> refState" where
  "freshRef el st =
     (let n = refCounter st + 1; r = refName n
      in (r, st\<lparr>refCounter := n,
                 elementsByRef := (elementsByRef st)(r \<mapsto> el),
                 refsByElement := (refsByElement st)(el \<mapsto> r)\<rparr>))"

definition getOrCreateRef :: "(elemId \<Rightarrow> bool) \<Rightarrow> elemId \<Rightarrow> refState \<Rightarrow> string \<times> refState" where
  "getOrCreateRef alive el st =
     (case refsByElement st el of
        Some existing \<Rightarrow>
          if existing \<noteq> [] \<and> Option.bind (elementsByRef st existing) (deref alive) = Some el
          then (existing, st)
          else freshRef el st
      | None \<Rightarrow> freshRef el st)"

definition resolveRef :: "(elemId \<Rightarrow> bool) \<Rightarrow> refState \<Rightarrow> string \<Rightarrow> elemId option" where
  "resolveRef alive st r = Option.bind (elementsByRef st r) (deref alive)"

text \<open>The reset at the head of \<^verbatim>\<open>takeSnapshot\<close>; the \<^verbatim>\<open>WeakMap\<close> is left as it is.\<close>

definition resetRefs :: "refState \<Rightarrow> refState" where
  "resetRefs st = st\<lparr>refCounter := 0, elementsByRef := Map.empty\<rparr>"

text \<open>A run of \<^verbatim>\<open>getOrCreateRef\<close> calls, in order, as one build makes them.\<close>

fun getOrCreateRefs :: "(elemId \<Rightarrow> bool) \<Rightarrow> elemId list \<Rightarrow> refState \<Rightarrow> string list \<times> refState" where
  "getOrCreateRefs alive [] st = ([], st)"
| "getOrCreateRefs alive (el # els) st =
     (let (r, st1) = getOrCreateRef alive el st;
          (rs, st2) = getOrCreateRefs alive els st1
      in (r # rs, st2))"


section \<open>Snapshot builder: the document and the tree\<close>

text \<open>
  What \<^verbatim>\<open>buildNode\<close> reads of one element through the DOM: its lower-cased tag, the results
  of \<^verbatim>\<open>isVisible\<close>, \<^verbatim>\<open>isInViewport\<close>, \<^verbatim>\<open>getRole\<close>, \<^verbatim>\<open>isInteractive\<close>,
  \<^verbatim>\<open>getAccessibleName\<close>, \<^verbatim>\<open>getProps\<close> (in \<^verbatim>\<open>Object.entries\<close> order) and
  \<^verbatim>\<open>getShallowText\<close>, and for an iframe its \<^verbatim>\<open>title\<close>, \<^verbatim>\<open>name\<close>, \<^verbatim>\<open>src\<close> and
  whether reading its content document throws.
\<close>

record domFacts =
  elTag :: string
  elVisible :: bool
  elInViewport :: bool
  elRole :: string
  elInteractive :: bool
  elName :: string
  elProps :: "(string \<times> string) list"
  elShallowText :: string
  frameTitle :: string
  frameName :: string
  frameSrc :: string
  frameThrows :: bool

text \<open>
  An element: identity, DOM facts, light-DOM children, the children of its open shadow root
  if it has one, and for an iframe the body of its content document if there is one.
\<close>

datatype element =
  Element (elId: elemId) (elFacts: domFacts) (elChildren: "element list")
          (elShadow: "element list option") (frameBody: "element option")

datatype pageNode =
  PageNode (ref: string) (role: string) (name: string) (tag: string)
           (props: "(string \<times> string) list") (interactive: bool) (depth: nat)
           (children: "pageNode list")

record pageSnapshot =
  url :: string
  title :: string
  tree :: string
  interactiveCount :: nat
  timestamp :: nat

definition SKIP_TAGS :: "string list" where
  "SKIP_TAGS =
     [''script'', ''style'', ''noscript'', ''meta'', ''link'', ''br'', ''hr'', ''svg'', ''path'',
      ''defs'', ''clippath'', ''lineargradient'', ''radialgradient'', ''stop'', ''symbol'',
      ''use'', ''circle'', ''rect'', ''line'', ''polyline'', ''polygon'', ''ellipse'',
      ''template'', ''slot'']"

text \<open>\<^verbatim>\<open>getChildElements\<close>: an open shadow root replaces the light-DOM children.\<close>

fun getChildElements :: "element \<Rightarrow> element list" where
  "getChildElements (Element i f cs sh fb) = (case sh of Some scs \<Rightarrow> scs | None \<Rightarrow> cs)"

text \<open>
  \<^verbatim>\<open>buildNode\<close>, with the ref table passed through. \<^verbatim>\<open>buildChildren\<close> is its loop over
  the child elements. The ref of a node is taken after its children are built.
\<close>

function buildNode :: "(elemId \<Rightarrow> bool) \<Rightarrow> element \<Rightarrow> nat \<Rightarrow> int \<Rightarrow> bool \<Rightarrow> refState
                       \<Rightarrow> pageNode option \<times> refState"
  and buildChildren :: "(elemId \<Rightarrow> bool) \<Rightarrow> element list \<Rightarrow> nat \<Rightarrow> int \<Rightarrow> bool \<Rightarrow> refState
                       \<Rightarrow> pageNode list \<times> refState" where
  "buildNode alive el d maxDepth viewportOnly st =
     (let f = elFacts el in
      if elTag f \<in> set SKIP_TAGS then (None, st)
      else if \<not> elVisible f then (None, st)
      else if int d > maxDepth then (None, st)
      else if viewportOnly \<and> \<not> elInViewport f then (None, st)
      else if elTag f = ''iframe'' then
        (if frameThrows f then
           (let (r, st1) = getOrCreateRef alive (elId el) st
            in (Some (PageNode r ''iframe''
                        (if frameTitle f \<noteq> [] then frameTitle f else ''(cross-origin)'')
                        ''iframe'' [] False d []), st1))
         else
           (case frameBody el of
              None \<Rightarrow> (None, st)
            | Some body \<Rightarrow>
                (case buildNode alive body (d + 1) maxDepth viewportOnly st of
                   (None, st1) \<Rightarrow> (None, st1)
                 | (Some iframeNode, st1) \<Rightarrow>
                     (let (r, st2) = getOrCreateRef alive (elId el) st1
                      in (Some (PageNode r ''iframe''
                                  (if frameTitle f \<noteq> [] then frameTitle f else frameName f)
                                  ''iframe''
                                  (if frameSrc f \<noteq> [] then [(''src'', frameSrc f)] else [])
                                  False d (children iframeNode)), st2)))))
      else
        (let (cs, st1) = buildChildren alive (getChildElements el) (d + 1) maxDepth viewportOnly st in
         if elRole f = [] \<and> \<not> elInteractive f \<and> elName f = [] \<and> length cs = 1
         then (Some (hd cs), st1)
         else if elRole f = [] \<and> \<not> elInteractive f \<and> elName f = [] \<and> length cs = 0
                 \<and> elShallowText f = []
         then (None, st1)
         else
           (let (r, st2) = (if elInteractive f \<or> elRole f \<noteq> []
                            then getOrCreateRef alive (elId el) st1 else ([], st1))
            in (Some (PageNode r (elRole f) (elName f) (elTag f) (elProps f)
                        (elInteractive f) d cs), st2))))"
| "buildChildren alive [] d maxDepth viewportOnly st = ([], st)"
| "buildChildren alive (c # rest) d maxDepth viewportOnly st =
     (let (n, st1) = buildNode alive c d maxDepth viewportOnly st;
          (ns, st2) = buildChildren alive rest d maxDepth viewportOnly st1
      in (case n of None \<Rightarrow> (ns, st2) | Some childNode \<Rightarrow> (childNode # ns, st2)))"
  by pat_completeness auto

lemma size_getChildElements: "size_list size (getChildElements el) < size el"
  by (cases el) (auto split: option.splits)

lemma size_frameBody: "frameBody el = Some body \<Longrightarrow> size body < size el"
  by (cases el) auto

termination buildNode
proof (relation "measure (\<lambda>x. case x of
          Inl (alive, el, d, maxDepth, viewportOnly, st) \<Rightarrow> 2 * size el
        | Inr (alive, els, d, maxDepth, viewportOnly, st) \<Rightarrow> 2 * size_list size els + 1)",
       goal_cases)
  case 1
  then show ?case by simp
next
  case (2 alive el d maxDepth viewportOnly st f body)
  then show ?case using size_frameBody [of el body] by simp
next
  case (3 alive el d maxDepth viewportOnly st f)
  then show ?case using size_getChildElements [of el] by simp
next
  case 4
  then show ?case by simp
next
  case 5
  then show ?case by simp
qed

declare buildNode.simps [simp del]

section \<open>Snapshot builder: serialization\<close>

text \<open>The line of one node, shared by \<^verbatim>\<open>serializeNode\<close> and \<^verbatim>\<open>serializeInteractive\<close>.\<close>

definition displayName :: "string \<Rightarrow> string" where
  "displayName n = (if length n > 80 then take 77 n @ ellipsis else n)"

definition displayVal :: "string \<Rightarrow> string" where
  "displayVal v = (if length v > 60 then take 57 v @ ellipsis else v)"

definition nodeLine :: "pageNode \<Rightarrow> nat \<Rightarrow> string" where
  "nodeLine node indent =
     (let pad = concat (replicate indent ''  '');
          parts = [if role node \<noteq> [] then role node else tag node]
                  @ (if name node \<noteq> [] then [''\"'' @ displayName (name node) @ ''\"''] else [])
                  @ (if ref node \<noteq> [] then [''['' @ ref node @ '']''] else [])
                  @ map (\<lambda>(k, v). k @ ''='' @ displayVal v) (props node)
      in pad @ join '' '' parts)"

text \<open>The accumulator: the \<^verbatim>\<open>lines\<close> array and \<^verbatim>\<open>charCount.count\<close>.\<close>

type_synonym serState = "string list \<times> nat"

fun serializeNode :: "pageNode \<Rightarrow> nat \<Rightarrow> int \<Rightarrow> serState \<Rightarrow> serState" where
  "serializeNode (PageNode r ro n t ps i d cs) indent maxChars (lines, count) =
     (if int count \<ge> maxChars then (lines, count)
      else
        (let line = nodeLine (PageNode r ro n t ps i d cs) indent
         in fold (\<lambda>child acc. serializeNode child (indent + 1) maxChars acc) cs
              (lines @ [line], count + (length line + 1))))"

fun nodeHasInteractive :: "pageNode \<Rightarrow> bool" where
  "nodeHasInteractive (PageNode r ro n t ps i d cs) = (i \<or> list_ex nodeHasInteractive cs)"

fun serializeInteractive :: "pageNode \<Rightarrow> nat \<Rightarrow> int \<Rightarrow> serState \<Rightarrow> serState" where
  "serializeInteractive (PageNode r ro n t ps i d cs) indent maxChars (lines, count) =
     (if int count \<ge> maxChars then (lines, count)
      else if \<not> nodeHasInteractive (PageNode r ro n t ps i d cs) then (lines, count)
      else
        (let line = nodeLine (PageNode r ro n t ps i d cs) indent
         in fold (\<lambda>child acc. serializeInteractive child (indent + 1) maxChars acc) cs
              (lines @ [line], count + (length line + 1))))"

fun countInteractive :: "pageNode \<Rightarrow> nat" where
  "countInteractive (PageNode r ro n t ps i d cs) =
     (if i then 1 else 0) + sum_list (map countInteractive cs)"

section \<open>Snapshot builder: \<^verbatim>\<open>takeSnapshot\<close>\<close>

datatype filterMode = FilterAll | FilterInteractive

record snapshotOptions =
  optFilter :: "filterMode option"
  optMaxDepth :: "int option"
  optMaxChars :: "int option"
  optViewportOnly :: "bool option"

text \<open>
  The page: \<^verbatim>\<open>document.body ?? document.documentElement\<close>, \<^verbatim>\<open>location.href\<close>,
  \<^verbatim>\<open>document.title\<close> and the clock read by \<^verbatim>\<open>Date.now()\<close>.
\<close>

record document =
  docRoot :: element
  docHref :: string
  docTitle :: string
  docNow :: nat

definition takeSnapshot :: "(elemId \<Rightarrow> bool) \<Rightarrow> snapshotOptions \<Rightarrow> document \<Rightarrow> refState
                            \<Rightarrow> pageSnapshot \<times> refState" where
  "takeSnapshot alive options doc st =
     (let mode = (case optFilter options of None \<Rightarrow> FilterAll | Some x \<Rightarrow> x);
          maxDepth = (case optMaxDepth options of None \<Rightarrow> 12 | Some x \<Rightarrow> x);
          maxChars = (case optMaxChars options of None \<Rightarrow> 30000 | Some x \<Rightarrow> x);
          viewportOnly = (case optViewportOnly options of None \<Rightarrow> True | Some x \<Rightarrow> x);
          st0 = resetRefs st
      in case buildNode alive (docRoot doc) 0 maxDepth viewportOnly st0 of
           (None, st1) \<Rightarrow>
             (\<lparr>url = docHref doc, title = docTitle doc, tree = ''(empty page)'',
               interactiveCount = 0, timestamp = docNow doc\<rparr>, st1)
         | (Some rootNode, st1) \<Rightarrow>
             (let (lines, count) =
                    (if mode = FilterInteractive
                     then serializeInteractive rootNode 0 maxChars ([], 0)
                     else serializeNode rootNode 0 maxChars ([], 0))
              in (\<lparr>url = docHref doc, title = docTitle doc, tree = join [CHR 0x0A] lines,
                    interactiveCount = countInteractive rootNode, timestamp = docNow doc\<rparr>, st1)))"

section \<open>Snapshot builder: notions used in the proofs\<close>

text \<open>
  The invariant of the ref table during one build: every entry of \<^verbatim>\<open>elementsByRef\<close> is
  mirrored in \<^verbatim>\<open>refsByElement\<close>, and its key is one of the names handed out since the reset.
\<close>

definition refInv :: "refState \<Rightarrow> bool" where
  "refInv st = (\<forall>r e. elementsByRef st r = Some e \<longrightarrow>
      refsByElement st e = Some r \<and> (\<exists>k. 1 \<le> k \<and> k \<le> refCounter st \<and> r = refName k))"

text \<open>Two states that differ at most in stale \<^verbatim>\<open>refsByElement\<close> entries.\<close>

definition sameTable :: "refState \<Rightarrow> refState \<Rightarrow> bool" where
  "sameTable st1 st2 = (refCounter st1 = refCounter st2 \<and> elementsByRef st1 = elementsByRef st2 \<and>
     refInv st1 \<and> refInv st2)"

definition sameResult :: "'a \<times> refState \<Rightarrow> 'a \<times> refState \<Rightarrow> bool" where
  "sameResult x y = (fst x = fst y \<and> sameTable (snd x) (snd y))"







section \<open>Snapshot builder: a page with one button\<close>

definition plainFacts :: "string \<Rightarrow> domFacts" where
  "plainFacts t = \<lparr>elTag = t, elVisible = True, elInViewport = True, elRole = [],
      elInteractive = False, elName = [], elProps = [], elShallowText = [],
      frameTitle = [], frameName = [], frameSrc = [], frameThrows = False\<rparr>"

definition goButton :: element where
  "goButton = Element 1 ((plainFacts ''button'')\<lparr>elRole := ''button'', elInteractive := True,
       elName := ''Go'', elShallowText := ''Go''\<rparr>) [] None None"

definition goPage :: document where
  "goPage = \<lparr>docRoot = Element 0 (plainFacts ''body'') [goButton] None None,
              docHref = ''https://example.test/'', docTitle = ''Go'', docNow = 0\<rparr>"

definition noOptions :: snapshotOptions where
  "noOptions = \<lparr>optFilter = None, optMaxDepth = None, optMaxChars = None, optViewportOnly = None\<rparr>"

definition emptyRefs :: refState where
  "emptyRefs = \<lparr>refCounter = 0, elementsByRef = Map.empty, refsByElement = Map.empty\<rparr>"

definition everAlive :: "elemId \<Rightarrow> bool" where
  "everAlive e = True"

section \<open>Actions and step results\<close>

text \<open>
  The tagged union \<^verbatim>\<open>Action\<close> of \<^verbatim>\<open>types/index.ts\<close>; optional fields are options. The
  numbers \<^verbatim>\<open>amount\<close> and \<^verbatim>\<open>ms\<close> are taken to be integers, and \<^verbatim>\<open>ms\<close> to be of
  magnitude below \<open>10\<^sup>2\<^sup>1\<close>, where JavaScript prints a number by its decimal digits as
  \<^verbatim>\<open>describeAction\<close> does here; fractional and larger values of \<^verbatim>\<open>ms\<close> are outside
  the model.
\<close>

datatype direction = Up | Down

datatype action =
    Click string
  | Type string string "bool option"
  | Select string string
  | Scroll direction "int option"
  | Navigate string
  | Read "string option"
  | Wait int

record stepResult =
  success :: bool
  snapshot :: "pageSnapshot option"
  error :: "string option"

section \<open>Task recorder\<close>

record recordedStep =
  rsAction :: action
  rsUrl :: string
  rsTimestamp :: nat
  rsSuccess :: bool
  rsError :: "string option"

record recording =
  recId :: string
  recTask :: string
  recStartUrl :: string
  recSteps :: "recordedStep list"
  recCreatedAt :: nat
  recDuration :: int

text \<open>
  The module variable \<^verbatim>\<open>activeRecording\<close> and the value stored under the key
  \<^verbatim>\<open>'recordings'\<close> in \<^verbatim>\<open>chrome.storage.local\<close>, absent until the first save.
\<close>

record recorderState =
  activeRecording :: "recording option"
  storedRecordings :: "recording list option"

definition MAX_RECORDINGS :: nat where
  "MAX_RECORDINGS = 50"

text \<open>
  \<^verbatim>\<open>startRecording\<close>; \<open>now\<close> is what \<^verbatim>\<open>Date.now()\<close> returns (both reads in one call are
  taken at the same millisecond) and \<open>rnd\<close> the six characters drawn from
  \<^verbatim>\<open>Math.random()\<close>.
\<close>

definition startRecording :: "string \<Rightarrow> string \<Rightarrow> nat \<Rightarrow> string \<Rightarrow> recorderState \<Rightarrow> recorderState" where
  "startRecording task startUrl now rnd st =
     st\<lparr>activeRecording := Some \<lparr>recId = ''rec_'' @ showNat now @ ''_'' @ rnd, recTask = task,
            recStartUrl = startUrl, recSteps = [], recCreatedAt = now, recDuration = 0\<rparr>\<rparr>"

definition recordStep :: "action \<Rightarrow> string \<Rightarrow> stepResult \<Rightarrow> nat \<Rightarrow> recorderState \<Rightarrow> recorderState" where
  "recordStep a u result now st =
     (case activeRecording st of
        None \<Rightarrow> st
      | Some rec \<Rightarrow>
          st\<lparr>activeRecording := Some (rec\<lparr>recSteps := recSteps rec @
                 [\<lparr>rsAction = a, rsUrl = u, rsTimestamp = now, rsSuccess = success result,
                   rsError = error result\<rparr>]\<rparr>)\<rparr>)"

definition getRecordings :: "recorderState \<Rightarrow> recording list" where
  "getRecordings st = (case storedRecordings st of None \<Rightarrow> [] | Some rs \<Rightarrow> rs)"

definition saveRecording :: "recording \<Rightarrow> recorderState \<Rightarrow> recorderState" where
  "saveRecording rec st =
     (let recordings = rec # getRecordings st;
          recordings' = (if length recordings > MAX_RECORDINGS
                         then take MAX_RECORDINGS recordings else recordings)
      in st\<lparr>storedRecordings := Some recordings'\<rparr>)"

definition stopRecording :: "nat \<Rightarrow> recorderState \<Rightarrow> recording option \<times> recorderState" where
  "stopRecording now st =
     (case activeRecording st of
        None \<Rightarrow> (None, st)
      | Some active \<Rightarrow>
          (let rec = active\<lparr>recDuration := int now - int (recCreatedAt active)\<rparr>;
               st1 = st\<lparr>activeRecording := None\<rparr>
           in if list_ex rsSuccess (recSteps rec)
              then (Some rec, saveRecording rec st1)
              else (Some rec, st1)))"

text \<open>
  A task run as \<^verbatim>\<open>runTask\<close> of the service worker drives the recorder: one
  \<^verbatim>\<open>startRecording\<close>, one \<^verbatim>\<open>recordStep\<close> for each action the planner executes (with the
  URL and the clock read at that moment), one \<^verbatim>\<open>stopRecording\<close>.
\<close>

fun recordSteps :: "(action \<times> string \<times> stepResult \<times> nat) list \<Rightarrow> recorderState \<Rightarrow> recorderState" where
  "recordSteps [] st = st"
| "recordSteps ((a, u, result, now) # rest) st = recordSteps rest (recordStep a u result now st)"

definition recordedRun :: "string \<Rightarrow> string \<Rightarrow> nat \<Rightarrow> string \<Rightarrow> (action \<times> string \<times> stepResult \<times> nat) list
                           \<Rightarrow> nat \<Rightarrow> recorderState \<Rightarrow> recording option \<times> recorderState" where
  "recordedRun task startUrl now rnd calls endNow st =
     stopRecording endNow (recordSteps calls (startRecording task startUrl now rnd st))"

subsection \<open>Replay\<close>

text \<open>
  What a replay does, in order: the observer callbacks, the delays, and each call of
  \<^verbatim>\<open>executeAction\<close> with its result. The page is a state \<open>'w\<close> that
  \<^verbatim>\<open>executeAction\<close> reads and changes.
\<close>

datatype replayEvent =
    ReplayStepStart recordedStep nat
  | ReplaySleep nat
  | ReplayExecute action stepResult
  | ReplayStepComplete recordedStep stepResult
  | ReplayError string recordedStep nat
  | ReplayComplete recording

text \<open>
  The loop of \<^verbatim>\<open>replayRecording\<close> from index \<open>i\<close> on; the flag tells whether it ran to
  its end (\<open>True\<close>) or returned at a failure.
\<close>

fun replaySteps :: "(action \<Rightarrow> 'w \<Rightarrow> stepResult \<times> 'w) \<Rightarrow> recordedStep list \<Rightarrow> nat \<Rightarrow> 'w
                     \<Rightarrow> bool \<times> 'w \<times> replayEvent list" where
  "replaySteps exec [] i w = (True, w, [])"
| "replaySteps exec (step # rest) i w =
     (let before = [ReplayStepStart step i] @ (if i > 0 then [ReplaySleep 500] else []);
          (result, w1) = exec (rsAction step) w;
          done = [ReplayExecute (rsAction step) result, ReplayStepComplete step result]
      in if \<not> success result
         then (False, w1, before @ done @
                 [ReplayError (''Replay failed at step '' @ showNat (i + 1) @ '': '' @
                    (case error result of None \<Rightarrow> ''Unknown error'' | Some e \<Rightarrow> e)) step i])
         else (let (ok, w2, later) = replaySteps exec rest (i + 1) w1
               in (ok, w2, before @ done @ [ReplaySleep 300] @ later)))"

definition replayRecording :: "(action \<Rightarrow> 'w \<Rightarrow> stepResult \<times> 'w) \<Rightarrow> recording \<Rightarrow> 'w
                               \<Rightarrow> 'w \<times> replayEvent list" where
  "replayRecording exec rec w =
     (let successfulSteps = filter rsSuccess (recSteps rec);
          (ok, w1, events) = replaySteps exec successfulSteps 0 w
      in (w1, if ok then events @ [ReplayComplete rec] else events))"

text \<open>The calls of \<^verbatim>\<open>executeAction\<close> in a trace, in order.\<close>

fun replayExecuted :: "replayEvent list \<Rightarrow> (action \<times> stepResult) list" where
  "replayExecuted [] = []"
| "replayExecuted (ReplayExecute a r # es) = (a, r) # replayExecuted es"
| "replayExecuted (e # es) = replayExecuted es"

section \<open>Task recorder: notions used in the proofs\<close>

text \<open>The step that \<^verbatim>\<open>recordStep\<close> appends for one executed action.\<close>

definition mkStep :: "action \<times> string \<times> stepResult \<times> nat \<Rightarrow> recordedStep" where
  "mkStep c = (case c of (a, u, result, now) \<Rightarrow>
     \<lparr>rsAction = a, rsUrl = u, rsTimestamp = now, rsSuccess = success result, rsError = error result\<rparr>)"

text \<open>Sample results, a run with one failed and one successful step, and a page on which every action succeeds.\<close>

definition okResult :: stepResult where
  "okResult = \<lparr>success = True, snapshot = None, error = None\<rparr>"

definition failResult :: "string \<Rightarrow> stepResult" where
  "failResult msg = \<lparr>success = False, snapshot = None, error = Some msg\<rparr>"

definition noRecordings :: recorderState where
  "noRecordings = \<lparr>activeRecording = None, storedRecordings = None\<rparr>"

definition mixedCalls :: "(action \<times> string \<times> stepResult \<times> nat) list" where
  "mixedCalls = [(Click ''e9'', ''https://example.test/'', failResult ''Element not found: e9'', 10),
                 (Click ''e1'', ''https://example.test/'', okResult, 20)]"

definition alwaysOk :: "action \<Rightarrow> unit \<Rightarrow> stepResult \<times> unit" where
  "alwaysOk a w = (okResult, w)"

section \<open>Planner: messages, plans and prompts\<close>

datatype llmRole = System | User | Assistant

record llmMessage =
  msgRole :: llmRole
  content :: string

text \<open>\<^verbatim>\<open>LLMResponse\<close>; \<^verbatim>\<open>usage\<close> is the pair of input and output tokens.\<close>

record llmResponse =
  respContent :: string
  usage :: "(nat \<times> nat) option"

record plannedStep =
  psAction :: action
  expectation :: "string option"
  needsVerification :: bool

record plan =
  steps :: "plannedStep list"
  reasoning :: string

definition MAX_ITERATIONS :: nat where
  "MAX_ITERATIONS = 15"

definition MAX_JSON_RETRIES :: nat where
  "MAX_JSON_RETRIES = 2"

definition MAX_API_RETRIES :: nat where
  "MAX_API_RETRIES = 5"

definition nl :: string where
  "nl = [CHR 0x0A]"

definition showInt :: "int \<Rightarrow> string" where
  "showInt i = (if i < 0 then ''-'' @ showNat (nat (- i)) else showNat (nat i))"

definition buildUserMessage :: "string \<Rightarrow> string \<Rightarrow> string" where
  "buildUserMessage task pageSnapshot =
     ''## Current Page'' @ nl @ pageSnapshot @ nl @ nl @ ''## Task'' @ nl @ task"

definition buildVerificationMessage :: "string \<Rightarrow> string \<Rightarrow> string" where
  "buildVerificationMessage previousAction newSnapshot =
     ''## Action Taken'' @ nl @ previousAction @ nl @ nl @ ''## Updated Page'' @ nl @ newSnapshot
       @ nl @ nl @ ''Continue with the original task. If the action succeeded, proceed to the next step. If it failed, try an alternative approach.''"

definition describeAction :: "action \<Rightarrow> string" where
  "describeAction a =
     (case a of
        Click r \<Rightarrow> ''Clicked ['' @ r @ '']''
      | Type r text clear \<Rightarrow> ''Typed \"'' @ text @ ''\" into ['' @ r @ '']''
                               @ (if clear = Some True then '' (cleared first)'' else [])
      | Select r v \<Rightarrow> ''Selected \"'' @ v @ ''\" in ['' @ r @ '']''
      | Scroll dir amount \<Rightarrow> ''Scrolled '' @ (case dir of Up \<Rightarrow> ''up'' | Down \<Rightarrow> ''down'')
      | Navigate u \<Rightarrow> ''Navigated to '' @ u
      | Read r \<Rightarrow> ''Read page''
      | Wait ms \<Rightarrow> ''Waited '' @ showInt ms @ ''ms'')"

definition actionNeedsVerification :: "action \<Rightarrow> bool" where
  "actionNeedsVerification a =
     (case a of
        Click r \<Rightarrow> True
      | Navigate u \<Rightarrow> True
      | Scroll dir amount \<Rightarrow> True
      | Type r text clear \<Rightarrow> False
      | Select r v \<Rightarrow> False
      | Read r \<Rightarrow> False
      | Wait ms \<Rightarrow> False)"

definition formatSnapshot :: "pageSnapshot \<Rightarrow> string" where
  "formatSnapshot s =
     ''URL: '' @ url s @ nl @ ''Title: '' @ title s @ nl @ ''Interactive elements: ''
       @ showNat (interactiveCount s) @ nl @ nl @ tree s"

text \<open>\<^verbatim>\<open>history.splice(start, deleteCount)\<close> for a start and a count that are not negative.\<close>

definition spliceOut :: "nat \<Rightarrow> nat \<Rightarrow> 'a list \<Rightarrow> 'a list" where
  "spliceOut start deleteCount xs = take start xs @ drop (start + deleteCount) xs"

definition trimConversation :: "llmMessage list \<Rightarrow> int \<Rightarrow> llmMessage list" where
  "trimConversation history maxMessages =
     (if int (length history) \<le> maxMessages then history
      else
        (let keepFromEnd = maxMessages - 2;
             recentStart = int (length history) - keepFromEnd
         in if recentStart \<le> 2 then history
            else spliceOut 2 (nat (recentStart - 2)) history))"

subsection \<open>Parsing the model's answer\<close>

text \<open>
  \<^verbatim>\<open>parsePlan\<close> cleans the text, hands it to \<^verbatim>\<open>JSON.parse\<close> and checks the fields; it throws
  with a message or returns the plan. JSON decoding is outside this model: \<open>decode\<close> stands
  for everything up to the point where each step is known to carry an action of a valid kind,
  and leaves \<^verbatim>\<open>needsVerification\<close> absent where the answer has no boolean there. The
  default for an absent flag is \<^verbatim>\<open>parsePlan\<close>'s.
\<close>

record rawStep =
  rawAction :: action
  rawExpectation :: "string option"
  rawNeedsVerification :: "bool option"

record rawPlan =
  rawSteps :: "rawStep list"
  rawReasoning :: string

type_synonym decoder = "string \<Rightarrow> string + rawPlan"

definition parsePlan :: "decoder \<Rightarrow> string \<Rightarrow> string + plan" where
  "parsePlan decode raw =
     (case decode raw of
        Inl msg \<Rightarrow> Inl msg
      | Inr parsed \<Rightarrow>
          Inr \<lparr>steps = map (\<lambda>s. \<lparr>psAction = rawAction s, expectation = rawExpectation s,
                                    needsVerification =
                                      (case rawNeedsVerification s of
                                         Some b \<Rightarrow> b
                                       | None \<Rightarrow> actionNeedsVerification (rawAction s))\<rparr>)
                           (rawSteps parsed),
               reasoning = rawReasoning parsed\<rparr>)"

section \<open>Planner: the environment and the trace\<close>

text \<open>
  The collaborators of a run act on a world \<open>'w\<close> (the page, the model's backend, the
  clock). A call that throws returns \<open>Inl\<close> with the message of the error.
\<close>

record 'w env =
  getSnapshot :: "'w \<Rightarrow> (string + pageSnapshot) \<times> 'w"
  executeAction :: "action \<Rightarrow> 'w \<Rightarrow> stepResult \<times> 'w"
  chat :: "llmMessage list \<Rightarrow> 'w \<Rightarrow> (string + llmResponse) \<times> 'w"
  clock :: "'w \<Rightarrow> nat"

text \<open>
  Everything a run does that can be seen from outside, in order: the calls of the
  collaborators with their outcomes, the delays, and the observer callbacks.
\<close>

datatype event =
    EvGetSnapshot "string + pageSnapshot"
  | EvExecute action stepResult
  | EvChat "llmMessage list" "string + llmResponse"
  | EvSleep real
  | EvOnPlan plan
  | EvOnStepStart plannedStep nat
  | EvOnStepComplete plannedStep stepResult
  | EvOnComplete string
  | EvOnError string
  | EvOnUsage nat nat
  | EvOnRateLimit real nat

text \<open>
  The state of a run: the world, \<^verbatim>\<open>conversationHistory\<close>, \<^verbatim>\<open>totalUsage\<close>, and the trace.
\<close>

record 'w plannerState =
  world :: 'w
  history :: "llmMessage list"
  totalInput :: nat
  totalOutput :: nat
  events :: "event list"

definition emit :: "event \<Rightarrow> 'w plannerState \<Rightarrow> 'w plannerState" where
  "emit e st = st\<lparr>events := events st @ [e]\<rparr>"

definition sleep :: "real \<Rightarrow> 'w plannerState \<Rightarrow> 'w plannerState" where
  "sleep ms st = emit (EvSleep ms) st"

definition push :: "llmMessage \<Rightarrow> 'w plannerState \<Rightarrow> 'w plannerState" where
  "push m st = st\<lparr>history := history st @ [m]\<rparr>"

definition callGetSnapshot :: "'w env \<Rightarrow> 'w plannerState \<Rightarrow> (string + pageSnapshot) \<times> 'w plannerState" where
  "callGetSnapshot env st =
     (let (r, w) = getSnapshot env (world st) in (r, emit (EvGetSnapshot r) (st\<lparr>world := w\<rparr>)))"

definition callExecuteAction :: "'w env \<Rightarrow> action \<Rightarrow> 'w plannerState \<Rightarrow> stepResult \<times> 'w plannerState" where
  "callExecuteAction env a st =
     (let (r, w) = executeAction env a (world st) in (r, emit (EvExecute a r) (st\<lparr>world := w\<rparr>)))"

definition callChat :: "'w env \<Rightarrow> llmMessage list \<Rightarrow> 'w plannerState
                        \<Rightarrow> (string + llmResponse) \<times> 'w plannerState" where
  "callChat env messages st =
     (let (r, w) = chat env messages (world st) in (r, emit (EvChat messages r) (st\<lparr>world := w\<rparr>)))"

section \<open>Planner: calling the model\<close>

text \<open>
  \<^verbatim>\<open>callLLMWithRetry\<close>: the loop over \<open>attempt\<close>, with \<^verbatim>\<open>lastError\<close>. The \<^verbatim>\<open>throw\<close> after
  the loop is the first branch.
\<close>

function callLLMWithRetry :: "'w env \<Rightarrow> llmMessage list \<Rightarrow> nat \<Rightarrow> string option \<Rightarrow> 'w plannerState
                              \<Rightarrow> (string + llmResponse) \<times> 'w plannerState" where
  "callLLMWithRetry env messages attempt lastError st =
     (if attempt > MAX_API_RETRIES
      then (Inl (case lastError of None \<Rightarrow> ''null'' | Some m \<Rightarrow> m), st)
      else
        (case callChat env messages st of
           (Inr response, st1) \<Rightarrow> (Inr response, st1)
         | (Inl msg, st1) \<Rightarrow>
             (case classifyError msg of
                Fatal \<Rightarrow> (Inl msg, st1)
              | Retryable kind \<Rightarrow>
                  if attempt = MAX_API_RETRIES then (Inl msg, st1)
                  else
                    (let waitMs = backoffMs kind attempt;
                         st2 = emit (EvOnRateLimit waitMs (attempt + 1)) st1;
                         st3 = sleep waitMs st2
                     in callLLMWithRetry env messages (attempt + 1) (Some msg) st3))))"
  by pat_completeness auto
termination
  by (relation "measure (\<lambda>(env, messages, attempt, lastError, st). Suc MAX_API_RETRIES - attempt)") auto

declare callLLMWithRetry.simps [simp del]

definition correctivePrompt :: "string \<Rightarrow> string" where
  "correctivePrompt lastParseError =
     ''Your previous response was not valid JSON. Error: '' @ lastParseError @ nl @ nl
       @ ''Respond with ONLY a JSON object like: {\"reasoning\": \"...\", \"steps\": [...]}. No text before or after the JSON.''"

text \<open>The \<^verbatim>\<open>while\<close> loop that pops the corrective prompts off the end of the history.\<close>

function popCorrective :: "llmMessage list \<Rightarrow> llmMessage list" where
  "popCorrective h =
     (if length h > 1 \<and> msgRole (last h) = User \<and> str_includes (content (last h)) ''not valid JSON''
      then popCorrective (butlast h) else h)"
  by pat_completeness auto
termination
  by (relation "measure length") auto

declare popCorrective.simps [simp del]

definition addUsage :: "llmResponse \<Rightarrow> 'w plannerState \<Rightarrow> 'w plannerState" where
  "addUsage response st =
     (case usage response of
        None \<Rightarrow> st
      | Some (inputTokens, outputTokens) \<Rightarrow>
          (let st1 = st\<lparr>totalInput := totalInput st + inputTokens,
                         totalOutput := totalOutput st + outputTokens\<rparr>
           in emit (EvOnUsage (totalInput st1) (totalOutput st1)) st1))"

text \<open>\<^verbatim>\<open>getPlanFromLLM\<close>: the loop over \<open>jsonAttempt\<close>, with \<^verbatim>\<open>lastParseError\<close>.\<close>

function getPlanFromLLM :: "'w env \<Rightarrow> decoder \<Rightarrow> nat \<Rightarrow> string option \<Rightarrow> 'w plannerState
                            \<Rightarrow> (string + plan) \<times> 'w plannerState" where
  "getPlanFromLLM env decode jsonAttempt lastParseError st =
     (if jsonAttempt > MAX_JSON_RETRIES then (Inl ''Unreachable'', st)
      else
        (let st1 = (case lastParseError of
                      Some e \<Rightarrow> if e \<noteq> [] \<and> jsonAttempt > 0
                                then push \<lparr>msgRole = User, content = correctivePrompt e\<rparr> st else st
                    | None \<Rightarrow> st)
         in case callLLMWithRetry env (history st1) 0 None st1 of
              (Inl msg, st2) \<Rightarrow> (Inl msg, st2)
            | (Inr response, st2) \<Rightarrow>
                (let st3 = addUsage response st2
                 in case parsePlan decode (respContent response) of
                      Inr p \<Rightarrow>
                        (let st4 = (if jsonAttempt > 0
                                    then st3\<lparr>history := popCorrective (history st3)\<rparr> else st3)
                         in (Inr p, push \<lparr>msgRole = Assistant, content = respContent response\<rparr> st4))
                    | Inl parseError \<Rightarrow>
                        (let st4 = push \<lparr>msgRole = Assistant, content = respContent response\<rparr> st3
                         in if jsonAttempt = MAX_JSON_RETRIES
                            then (Inl (''LLM returned invalid JSON after '' @ showNat (MAX_JSON_RETRIES + 1)
                                       @ '' attempts. Last error: '' @ parseError), st4)
                            else getPlanFromLLM env decode (jsonAttempt + 1) (Some parseError) st4))))"
  by pat_completeness auto
termination
  by (relation "measure (\<lambda>(env, decode, jsonAttempt, lastParseError, st). Suc MAX_JSON_RETRIES - jsonAttempt)")
     auto

declare getPlanFromLLM.simps [simp del]

section \<open>Planner: acquiring snapshots\<close>

text \<open>
  The three places where \<^verbatim>\<open>runPlanner\<close> reads the page, each with the delays around it:
  at the head of an iteration, after a failed action, and for a verification (mid-batch and
  after the batch).
\<close>

definition placeholderSnapshot :: "string \<Rightarrow> nat \<Rightarrow> pageSnapshot" where
  "placeholderSnapshot t now =
     \<lparr>url = ''unknown'', title = ''unknown'', tree = t, interactiveCount = 0, timestamp = now\<rparr>"

definition acquireInitial :: "'w env \<Rightarrow> 'w plannerState \<Rightarrow> (string + pageSnapshot) \<times> 'w plannerState" where
  "acquireInitial env st =
     (case callGetSnapshot env st of
        (Inr s, st1) \<Rightarrow> (Inr s, st1)
      | (Inl e, st1) \<Rightarrow> callGetSnapshot env (sleep 1000 st1))"

definition acquireAfterError :: "'w env \<Rightarrow> 'w plannerState \<Rightarrow> pageSnapshot \<times> 'w plannerState" where
  "acquireAfterError env st =
     (case callGetSnapshot env (sleep 500 st) of
        (Inr s, st1) \<Rightarrow> (s, st1)
      | (Inl e, st1) \<Rightarrow> (placeholderSnapshot ''(unable to read page)'' (clock env (world st1)), st1))"

definition acquireVerify :: "'w env \<Rightarrow> 'w plannerState \<Rightarrow> pageSnapshot \<times> 'w plannerState" where
  "acquireVerify env st =
     (case callGetSnapshot env (sleep 500 st) of
        (Inr s, st1) \<Rightarrow> (s, st1)
      | (Inl e, st1) \<Rightarrow>
          (case callGetSnapshot env (sleep 1500 st1) of
             (Inr s, st2) \<Rightarrow> (s, st2)
           | (Inl e2, st2) \<Rightarrow>
               (placeholderSnapshot ''(page is loading or unreachable)'' (clock env (world st2)), st2)))"

section \<open>Planner: executing a batch\<close>

definition errorTurn :: "stepResult \<Rightarrow> action \<Rightarrow> pageSnapshot \<Rightarrow> llmMessage" where
  "errorTurn result a errorSnapshot =
     \<lparr>msgRole = User,
      content = ''## Error'' @ nl @ ''Action failed: ''
        @ (case error result of None \<Rightarrow> ''undefined'' | Some e \<Rightarrow> e) @ nl @ nl
        @ buildVerificationMessage (describeAction a) (formatSnapshot errorSnapshot)\<rparr>"

definition verificationTurn :: "action \<Rightarrow> pageSnapshot \<Rightarrow> llmMessage" where
  "verificationTurn a s =
     \<lparr>msgRole = User, content = buildVerificationMessage (describeAction a) (formatSnapshot s)\<rparr>"

text \<open>
  The \<^verbatim>\<open>for\<close> loop over \<^verbatim>\<open>plan.steps\<close> from index \<open>i\<close> on; \<open>n\<close> is
  \<^verbatim>\<open>plan.steps.length\<close>. The result is \<^verbatim>\<open>needsReplan\<close>.
\<close>

fun executeSteps :: "'w env \<Rightarrow> plannedStep list \<Rightarrow> nat \<Rightarrow> nat \<Rightarrow> 'w plannerState
                      \<Rightarrow> bool \<times> 'w plannerState" where
  "executeSteps env [] i n st = (False, st)"
| "executeSteps env (step # rest) i n st =
     (let shouldVerify = (needsVerification step \<or> actionNeedsVerification (psAction step));
          st1 = emit (EvOnStepStart step i) st;
          (result, st2) = callExecuteAction env (psAction step) st1;
          st3 = emit (EvOnStepComplete step result) st2
      in if \<not> success result then
           (let (errorSnapshot, st4) = acquireAfterError env st3
            in (True, push (errorTurn result (psAction step) errorSnapshot) st4))
         else if shouldVerify \<and> int i < int n - 1 then
           (let (verifySnapshot, st4) = acquireVerify env st3
            in (True, push (verificationTurn (psAction step) verifySnapshot) st4))
         else executeSteps env rest (i + 1) n st3)"

section \<open>Planner: \<^verbatim>\<open>runPlanner\<close>\<close>

text \<open>
  One pass through the body of the main loop. \<open>Done\<close> is a \<^verbatim>\<open>return\<close>, \<open>Again\<close> the
  end of the body.
\<close>

datatype 'w outcome = Done "'w plannerState" | Again "'w plannerState"

definition plannerIteration :: "'w env \<Rightarrow> decoder \<Rightarrow> string \<Rightarrow> nat \<Rightarrow> 'w plannerState \<Rightarrow> 'w outcome" where
  "plannerIteration env decode task iteration st =
     (case acquireInitial env st of
        (Inl retryError, st1) \<Rightarrow>
          Done (emit (EvOnError (''Cannot read page: '' @ retryError
                  @ ''. The content script may not be loaded on this page.'')) st1)
      | (Inr snap, st1) \<Rightarrow>
          (let st2 = (if iteration = 0
                      then push \<lparr>msgRole = User,
                                 content = buildUserMessage task (formatSnapshot snap)\<rparr> st1
                      else st1)
           in case getPlanFromLLM env decode 0 None st2 of
                (Inl msg, st3) \<Rightarrow> Done (emit (EvOnError (''Failed to get plan: '' @ msg)) st3)
              | (Inr p, st3) \<Rightarrow>
                  (let st4 = emit (EvOnPlan p) st3
                   in if length (steps p) = 0 then Done (emit (EvOnComplete (reasoning p)) st4)
                      else
                        (let (needsReplan, st5) = executeSteps env (steps p) 0 (length (steps p)) st4;
                             st6 = (if \<not> needsReplan
                                    then (let (finalSnapshot, st') = acquireVerify env st5
                                          in push (verificationTurn (psAction (last (steps p)))
                                                     finalSnapshot) st')
                                    else st5)
                         in Again (st6\<lparr>history := trimConversation (history st6) 14\<rparr>)))))"

function plannerLoop :: "'w env \<Rightarrow> decoder \<Rightarrow> string \<Rightarrow> nat \<Rightarrow> 'w plannerState \<Rightarrow> 'w plannerState" where
  "plannerLoop env decode task iteration st =
     (if iteration < MAX_ITERATIONS then
        (case plannerIteration env decode task iteration st of
           Done st' \<Rightarrow> st'
         | Again st' \<Rightarrow> plannerLoop env decode task (iteration + 1) st')
      else emit (EvOnError (''Max iterations ('' @ showNat MAX_ITERATIONS
                   @ '') reached. Task may be incomplete.'')) st)"
  by pat_completeness auto
termination
  by (relation "measure (\<lambda>(env, decode, task, iteration, st). MAX_ITERATIONS - iteration)") auto

declare plannerLoop.simps [simp del]

text \<open>
  \<^verbatim>\<open>runPlanner\<close>. The text of \<^verbatim>\<open>SYSTEM_PROMPT\<close> plays no part in the control flow and is a
  parameter.
\<close>

definition initialState :: "string \<Rightarrow> 'w \<Rightarrow> 'w plannerState" where
  "initialState systemPrompt w =
     \<lparr>world = w, history = [\<lparr>msgRole = System, content = systemPrompt\<rparr>],
      totalInput = 0, totalOutput = 0, events = []\<rparr>"

definition runPlanner :: "'w env \<Rightarrow> decoder \<Rightarrow> string \<Rightarrow> string \<Rightarrow> 'w \<Rightarrow> 'w plannerState" where
  "runPlanner env decode systemPrompt task w =
     plannerLoop env decode task 0 (initialState systemPrompt w)"

section \<open>Planner: a scripted environment\<close>

text \<open>
  A world that answers from scripts: each call of a collaborator takes the next outcome of
  its list. An exhausted script makes the page unreadable, the action fail and the model
  return a fatal error.
\<close>

record script =
  snapshotScript :: "(string + pageSnapshot) list"
  actionScript :: "stepResult list"
  chatScript :: "(string + llmResponse) list"

definition scriptedEnv :: "script env" where
  "scriptedEnv =
     \<lparr>getSnapshot = (\<lambda>w. case snapshotScript w of
                            [] \<Rightarrow> (Inl ''Error: Could not establish connection'', w)
                          | r # rs \<Rightarrow> (r, w\<lparr>snapshotScript := rs\<rparr>)),
      executeAction = (\<lambda>a w. case actionScript w of
                            [] \<Rightarrow> (failResult ''No response'', w)
                          | r # rs \<Rightarrow> (r, w\<lparr>actionScript := rs\<rparr>)),
      chat = (\<lambda>messages w. case chatScript w of
                            [] \<Rightarrow> (Inl ''401 unauthorized'', w)
                          | r # rs \<Rightarrow> (r, w\<lparr>chatScript := rs\<rparr>)),
      clock = (\<lambda>w. 0)\<rparr>"

definition pageOk :: "string + pageSnapshot" where
  "pageOk = Inr \<lparr>url = ''https://example.test/'', title = ''Go'', tree = ''button \"Go\" [e1]'',
                 interactiveCount = 1, timestamp = 0\<rparr>"

definition pageGone :: "string + pageSnapshot" where
  "pageGone = Inl ''Error: Could not establish connection''"

definition says :: "string \<Rightarrow> string + llmResponse" where
  "says text = Inr \<lparr>respContent = text, usage = None\<rparr>"

text \<open>
  A decoder for three answers: a plan of two clicks whose flags are explicitly false, a plan
  of one click, and the empty plan; anything else is a syntax error.
\<close>

definition clickStep :: "string \<Rightarrow> rawStep" where
  "clickStep r = \<lparr>rawAction = Click r, rawExpectation = None, rawNeedsVerification = Some False\<rparr>"

definition sampleDecode :: decoder where
  "sampleDecode raw =
     (if raw = ''two clicks'' then Inr \<lparr>rawSteps = [clickStep ''e1'', clickStep ''e2''],
                                          rawReasoning = ''Clicking twice''\<rparr>
      else if raw = ''one click'' then Inr \<lparr>rawSteps = [clickStep ''e1''],
                                              rawReasoning = ''Clicking go''\<rparr>
      else if raw = ''done'' then Inr \<lparr>rawSteps = [], rawReasoning = ''Done. Clicked Go.''\<rparr>
      else Inl ''Unexpected token'')"

section \<open>Planner: notions used in the proofs\<close>

text \<open>The state after some more events and a change of the world.\<close>

definition after :: "'w plannerState \<Rightarrow> 'w \<Rightarrow> event list \<Rightarrow> 'w plannerState" where
  "after st w new = st\<lparr>world := w, events := events st @ new\<rparr>"

text \<open>
  A short tag for each event, to display a trace: the kind of the event, the outcome of a
  call, the number of messages sent to the model, the text of a completion or error.
\<close>

definition eventTag :: "event \<Rightarrow> string" where
  "eventTag e =
     (case e of
        EvGetSnapshot (Inl x) \<Rightarrow> ''snapshot failed''
      | EvGetSnapshot (Inr s) \<Rightarrow> ''snapshot''
      | EvExecute a r \<Rightarrow> (if success r then ''action ok'' else ''action failed'')
      | EvChat m (Inl x) \<Rightarrow> ''chat failed''
      | EvChat m (Inr r) \<Rightarrow> ''chat '' @ showNat (length m) @ '': '' @ respContent r
      | EvSleep ms \<Rightarrow> ''sleep''
      | EvOnPlan p \<Rightarrow> ''onPlan''
      | EvOnStepStart s i \<Rightarrow> ''onStepStart '' @ showNat i
      | EvOnStepComplete s r \<Rightarrow> ''onStepComplete''
      | EvOnComplete s \<Rightarrow> ''onComplete: '' @ s
      | EvOnError s \<Rightarrow> ''onError: '' @ s
      | EvOnUsage a b \<Rightarrow> ''onUsage''
      | EvOnRateLimit w a \<Rightarrow> ''onRateLimit'')"

text \<open>A world in which every script is exhausted.\<close>

definition blindWorld :: script where
  "blindWorld = \<lparr>snapshotScript = [], actionScript = [], chatScript = []\<rparr>"

text \<open>The events of a verification: the delay, the attempt, and at most one retry.\<close>

definition verifyEvents :: "event list \<Rightarrow> bool" where
  "verifyEvents evs = (\<exists>r1. evs = [EvSleep 500, EvGetSnapshot r1] \<or>
     (\<exists>r2. evs = [EvSleep 500, EvGetSnapshot r1, EvSleep 1500, EvGetSnapshot r2]))"



text \<open>What \<^verbatim>\<open>callLLMWithRetry\<close> does before its last call: failed calls with the same messages, and waits.\<close>

definition waiting :: "llmMessage list \<Rightarrow> event \<Rightarrow> bool" where
  "waiting msgs e = (case e of EvChat m (Inl x) \<Rightarrow> m = msgs | EvOnRateLimit w a \<Rightarrow> True
                     | EvSleep ms \<Rightarrow> True | _ \<Rightarrow> False)"

text \<open>
  An event is quiet unless it is a completion, or an answer of the model that parses to a plan
  without steps.
\<close>

definition quiet :: "decoder \<Rightarrow> event \<Rightarrow> bool" where
  "quiet decode e =
     (case e of
        EvChat m (Inr resp) \<Rightarrow>
          (case parsePlan decode (respContent resp) of Inr p \<Rightarrow> steps p \<noteq> [] | Inl x \<Rightarrow> True)
      | EvOnComplete s \<Rightarrow> False
      | _ \<Rightarrow> True)"

text \<open>At most one usage report.\<close>

definition usageOnly :: "event list \<Rightarrow> bool" where
  "usageOnly u = (u = [] \<or> (\<exists>a b. u = [EvOnUsage a b]))"

text \<open>The state in which attempt \<open>jsonAttempt\<close> calls the model.\<close>

definition withCorrective :: "nat \<Rightarrow> string option \<Rightarrow> 'w plannerState \<Rightarrow> 'w plannerState" where
  "withCorrective jsonAttempt lastParseError st =
     (case lastParseError of
        Some e \<Rightarrow> if e \<noteq> [] \<and> jsonAttempt > 0
                  then push \<lparr>msgRole = User, content = correctivePrompt e\<rparr> st else st
      | None \<Rightarrow> st)"

text \<open>The events a batch can produce, and among them an action that reports failure.\<close>

definition batchEvent :: "event \<Rightarrow> bool" where
  "batchEvent e = (case e of EvOnStepStart s i \<Rightarrow> True | EvExecute a r \<Rightarrow> True
     | EvOnStepComplete s r \<Rightarrow> True | EvSleep ms \<Rightarrow> True | EvGetSnapshot r \<Rightarrow> True | _ \<Rightarrow> False)"

definition failedExec :: "event \<Rightarrow> bool" where
  "failedExec e = (case e of EvExecute a r \<Rightarrow> \<not> success r | _ \<Rightarrow> False)"

text \<open>The state an outcome carries.\<close>

fun outcomeState :: "'w outcome \<Rightarrow> 'w plannerState" where
  "outcomeState (Done st) = st"
| "outcomeState (Again st) = st"

text \<open>The user turn of the first iteration, and the verification that closes a batch.\<close>

definition firstTurn :: "string \<Rightarrow> nat \<Rightarrow> pageSnapshot \<Rightarrow> 'w plannerState \<Rightarrow> 'w plannerState" where
  "firstTurn task iteration snap st =
     (if iteration = 0
      then push \<lparr>msgRole = User, content = buildUserMessage task (formatSnapshot snap)\<rparr> st
      else st)"

definition closeBatch :: "'w env \<Rightarrow> plan \<Rightarrow> bool \<Rightarrow> 'w plannerState \<Rightarrow> 'w plannerState" where
  "closeBatch env p needsReplan st =
     (if \<not> needsReplan
      then (let (finalSnapshot, st') = acquireVerify env st
            in push (verificationTurn (psAction (last (steps p))) finalSnapshot) st')
      else st)"

definition trimmed :: "'w plannerState \<Rightarrow> 'w plannerState" where
  "trimmed st = st\<lparr>history := trimConversation (history st) 14\<rparr>"

text \<open>
  The model returns a valid plan whose list of steps is empty; the completion callback is
  invoked.
\<close>

definition completes :: "decoder \<Rightarrow> event \<Rightarrow> bool" where
  "completes decode e =
     (case e of
        EvChat m (Inr resp) \<Rightarrow>
          (case parsePlan decode (respContent resp) of Inr p \<Rightarrow> steps p = [] | Inl x \<Rightarrow> False)
      | _ \<Rightarrow> False)"

definition isOnComplete :: "event \<Rightarrow> bool" where
  "isOnComplete e = (case e of EvOnComplete s \<Rightarrow> True | _ \<Rightarrow> False)"

text \<open>A trace that ends with a completion: the answer, at most a usage report, and the two callbacks.\<close>

definition completedShape :: "decoder \<Rightarrow> event list \<Rightarrow> bool" where
  "completedShape decode new =
     (\<exists>pre msgs resp p u. new = pre @ [EvChat msgs (Inr resp)] @ u @ [EvOnPlan p, EvOnComplete (reasoning p)] \<and>
        list_all (quiet decode) pre \<and> parsePlan decode (respContent resp) = Inr p \<and> steps p = [] \<and>
        usageOnly u)"

text \<open>A run of two iterations with a malformed answer in between.\<close>

definition retryWorld :: script where
  "retryWorld = \<lparr>snapshotScript = [pageOk, pageOk, pageOk], actionScript = [okResult, okResult],
                  chatScript = [says ''two clicks'', says ''oops'', says ''done'']\<rparr>"


text \<open>The first two messages of a conversation are \<open>a\<close> and \<open>b\<close>.\<close>

definition pinned :: "llmMessage \<Rightarrow> llmMessage \<Rightarrow> llmMessage list \<Rightarrow> bool" where
  "pinned a b h = (take 2 h = [a, b])"

text \<open>Every model call in a list of events is sent a conversation that starts with \<open>a\<close> and \<open>b\<close>.\<close>

definition chatsPinned :: "llmMessage \<Rightarrow> llmMessage \<Rightarrow> event list \<Rightarrow> bool" where
  "chatsPinned a b evs = list_all (\<lambda>e. case e of EvChat m cr \<Rightarrow> pinned a b m | _ \<Rightarrow> True) evs"

text \<open>A run of eight iterations: seven single clicks, then the empty plan.\<close>

definition longWorld :: script where
  "longWorld = \<lparr>snapshotScript = replicate 16 pageOk, actionScript = replicate 7 okResult,
                 chatScript = replicate 7 (says ''one click'') @ [says ''done'']\<rparr>"

definition goSnapshot :: pageSnapshot where
  "goSnapshot = \<lparr>url = ''https://example.test/'', title = ''Go'', tree = ''button \"Go\" [e1]'',
                  interactiveCount = 1, timestamp = 0\<rparr>"

section \<open>Planner: the copy in \<^verbatim>\<open>src/lib/planner/index.ts\<close>\<close>

text \<open>
  The repository holds a second copy of the planner, \<^verbatim>\<open>src/lib/planner/index.ts\<close>, the one
  whose \<^verbatim>\<open>PlannerCallbacks\<close> the service worker supplies. It calls the model once per
  iteration, without retries, reads the page without guarding the call, and trims the
  conversation inline. Its definitions carry the suffix \<open>Index\<close>; \<^verbatim>\<open>describeAction\<close>,
  \<^verbatim>\<open>actionNeedsVerification\<close> and the texts of the turns are the same in both copies.

  \<^verbatim>\<open>parsePlan\<close> of this copy checks that \<^verbatim>\<open>reasoning\<close> is truthy and \<^verbatim>\<open>steps\<close> an array and
  returns the parsed object as it is. \<open>decode\<close> stands for \<^verbatim>\<open>JSON.parse\<close> and that check, on
  answers whose steps carry well-formed actions and whose flag, where present, is a boolean; a
  missing flag is falsy and recorded as \<open>False\<close>. An \<open>Inl\<close> of \<open>decode\<close> or of the model
  call carries the error as \<^verbatim>\<open>${error}\<close> prints it.
\<close>

definition parsePlanIndex :: "decoder \<Rightarrow> string \<Rightarrow> string + plan" where
  "parsePlanIndex decode raw =
     (case decode raw of
        Inl msg \<Rightarrow> Inl msg
      | Inr parsed \<Rightarrow>
          Inr \<lparr>steps = map (\<lambda>s. \<lparr>psAction = rawAction s, expectation = rawExpectation s,
                                    needsVerification = (rawNeedsVerification s = Some True)\<rparr>)
                           (rawSteps parsed),
               reasoning = rawReasoning parsed\<rparr>)"

text \<open>
  The trim at the end of the loop body: it keeps the system prompt and the last ten messages.
\<close>

definition inlineTrim :: "llmMessage list \<Rightarrow> llmMessage list" where
  "inlineTrim h = (if length h > 12 then (spliceOut 1 (length h - 11) h)[0 := h ! 0] else h)"

text \<open>
  The \<^verbatim>\<open>for\<close> loop over \<^verbatim>\<open>plan.steps\<close>. The result is \<^verbatim>\<open>needsReplan\<close>, or the error
  with which an unguarded \<^verbatim>\<open>getSnapshot\<close> threw.
\<close>

fun executeStepsIndex :: "'w env \<Rightarrow> plannedStep list \<Rightarrow> nat \<Rightarrow> nat \<Rightarrow> 'w plannerState
                           \<Rightarrow> (string + bool) \<times> 'w plannerState" where
  "executeStepsIndex env [] i n st = (Inr False, st)"
| "executeStepsIndex env (step # rest) i n st =
     (let shouldVerify = (needsVerification step \<or> actionNeedsVerification (psAction step));
          st1 = emit (EvOnStepStart step i) st;
          (result, st2) = callExecuteAction env (psAction step) st1;
          st3 = emit (EvOnStepComplete step result) st2
      in if \<not> success result then
           (case callGetSnapshot env st3 of
              (Inl e, st4) \<Rightarrow> (Inl e, st4)
            | (Inr errorSnapshot, st4) \<Rightarrow>
                (Inr True, push (errorTurn result (psAction step) errorSnapshot) st4))
         else if shouldVerify \<and> int i < int n - 1 then
           (case callGetSnapshot env st3 of
              (Inl e, st4) \<Rightarrow> (Inl e, st4)
            | (Inr verifySnapshot, st4) \<Rightarrow>
                (Inr True, push (verificationTurn (psAction step) verifySnapshot) st4))
         else executeStepsIndex env rest (i + 1) n st3)"

text \<open>
  One pass through the body of the main loop: a \<^verbatim>\<open>return\<close>, an error thrown out of
  \<^verbatim>\<open>runPlanner\<close>, or the end of the body.
\<close>

datatype 'w turn = Returns "'w plannerState" | Throws string "'w plannerState" | Loops "'w plannerState"

definition plannerIterationIndex :: "'w env \<Rightarrow> decoder \<Rightarrow> string \<Rightarrow> nat \<Rightarrow> 'w plannerState \<Rightarrow> 'w turn" where
  "plannerIterationIndex env decode task iteration st =
     (case callGetSnapshot env st of
        (Inl e, st1) \<Rightarrow> Throws e st1
      | (Inr snap, st1) \<Rightarrow>
          (let st2 = (if iteration = 0
                      then push \<lparr>msgRole = User,
                                 content = buildUserMessage task (formatSnapshot snap)\<rparr> st1
                      else st1)
           in case callChat env (history st2) st2 of
                (Inl e, st3) \<Rightarrow> Returns (emit (EvOnError (''Failed to get plan from LLM: '' @ e)) st3)
              | (Inr response, st3) \<Rightarrow>
                  (let st4 = push \<lparr>msgRole = Assistant, content = respContent response\<rparr>
                               (addUsage response st3)
                   in case parsePlanIndex decode (respContent response) of
                        Inl e \<Rightarrow> Returns (emit (EvOnError (''Failed to get plan from LLM: '' @ e)) st4)
                      | Inr p \<Rightarrow>
                          (let st5 = emit (EvOnPlan p) st4
                           in if length (steps p) = 0
                              then Returns (emit (EvOnComplete (reasoning p)) st5)
                              else
                                (case executeStepsIndex env (steps p) 0 (length (steps p)) st5 of
                                   (Inl e, st6) \<Rightarrow> Throws e st6
                                 | (Inr needsReplan, st6) \<Rightarrow>
                                     if \<not> needsReplan then
                                       (case callGetSnapshot env st6 of
                                          (Inl e, st7) \<Rightarrow> Throws e st7
                                        | (Inr finalSnapshot, st7) \<Rightarrow>
                                            (let st8 = push (verificationTurn (psAction (last (steps p)))
                                                               finalSnapshot) st7
                                             in Loops (st8\<lparr>history := inlineTrim (history st8)\<rparr>)))
                                     else Loops (st6\<lparr>history := inlineTrim (history st6)\<rparr>))))))"

text \<open>The main loop; the first component of the result is the error thrown, if any.\<close>

function plannerLoopIndex :: "'w env \<Rightarrow> decoder \<Rightarrow> string \<Rightarrow> nat \<Rightarrow> 'w plannerState
                              \<Rightarrow> string option \<times> 'w plannerState" where
  "plannerLoopIndex env decode task iteration st =
     (if iteration < MAX_ITERATIONS then
        (case plannerIterationIndex env decode task iteration st of
           Returns st' \<Rightarrow> (None, st')
         | Throws e st' \<Rightarrow> (Some e, st')
         | Loops st' \<Rightarrow> plannerLoopIndex env decode task (iteration + 1) st')
      else (None, emit (EvOnError (''Max iterations ('' @ showNat MAX_ITERATIONS
                   @ '') reached. Task may be incomplete.'')) st))"
  by pat_completeness auto
termination
  by (relation "measure (\<lambda>(env, decode, task, iteration, st). MAX_ITERATIONS - iteration)") auto

declare plannerLoopIndex.simps [simp del]

definition runPlannerIndex :: "'w env \<Rightarrow> decoder \<Rightarrow> string \<Rightarrow> string \<Rightarrow> 'w
                               \<Rightarrow> string option \<times> 'w plannerState" where
  "runPlannerIndex env decode systemPrompt task w =
     plannerLoopIndex env decode task 0 (initialState systemPrompt w)"

text \<open>The conversations sent to the model, in the order of the calls.\<close>

fun chatMessages :: "event list \<Rightarrow> llmMessage list list" where
  "chatMessages [] = []"
| "chatMessages (EvChat m cr # es) = m # chatMessages es"
| "chatMessages (e # es) = chatMessages es"

text \<open>
  The conversation of a run on the page with one button after six iterations of one click each:
  the system prompt, the task message, and six exchanges of an answer and a verification.
\<close>

definition goTask :: llmMessage where
  "goTask = \<lparr>msgRole = User,
             content = buildUserMessage ''click the Go button'' (formatSnapshot goSnapshot)\<rparr>"

definition sixRounds :: "llmMessage list" where
  "sixRounds = [\<lparr>msgRole = System, content = ''SYS''\<rparr>, goTask]
     @ concat (replicate 6 [\<lparr>msgRole = Assistant, content = ''one click''\<rparr>,
                            verificationTurn (Click ''e1'') goSnapshot])"

chapter \<open>Properties\<close>

section \<open>Backoff\<close>

lemma backoffMs_step: "backoffMs kind attempt \<le> backoffMs kind (Suc attempt)"
proof (cases kind)
  case Tpm
  have "(15000::real) * (3 / 2) ^ attempt \<le> 15000 * (3 / 2) ^ Suc attempt"
    by simp
  then show ?thesis
    unfolding backoffMs_def Tpm by (simp add: min_le_iff_disj)
next
  case Rpm
  have "(5000::real) * 2 ^ attempt \<le> 5000 * 2 ^ Suc attempt"
    by simp
  then show ?thesis
    unfolding backoffMs_def Rpm by (simp add: min_le_iff_disj)
next
  case Server
  have "(2000::real) * 2 ^ attempt \<le> 2000 * 2 ^ Suc attempt"
    by simp
  then show ?thesis
    unfolding backoffMs_def Server by (simp add: min_le_iff_disj)
qed

lemma backoffMs_mono: "a \<le> b \<Longrightarrow> backoffMs kind a \<le> backoffMs kind b"
proof (induction b)
  case 0
  then show ?case by simp
next
  case (Suc b)
  show ?case
  proof (cases "a = Suc b")
    case True
    then show ?thesis by simp
  next
    case False
    with Suc.prems have "a \<le> b" by simp
    then have "backoffMs kind a \<le> backoffMs kind b" by (rule Suc.IH)
    also have "\<dots> \<le> backoffMs kind (Suc b)" by (rule backoffMs_step)
    finally show ?thesis .
  qed
qed

lemma backoffMs_cap: "backoffMs kind attempt \<le> backoffCap kind"
  by (cases kind) (simp_all add: backoffMs_def backoffCap_def)

lemma backoffMs_start:
  "backoffMs Tpm 0 = 15000" "backoffMs Rpm 0 = 5000" "backoffMs Server 0 = 2000"
  by (simp_all add: backoffMs_def)

text \<open>
  C8. For each retryable classification (token rate limit, request rate limit, transient
  server error) the computed wait never decreases from one attempt to a later one and never
  exceeds the cap of its kind: 65000 ms, 60000 ms and 16000 ms.
\<close>

theorem C8_backoff_monotone_capped:
  "backoffMs kind attempt \<le> backoffMs kind (attempt + d) \<and>
   backoffMs kind attempt \<le> backoffCap kind \<and>
   backoffCap Tpm = 65000 \<and> backoffCap Rpm = 60000 \<and> backoffCap Server = 16000"
proof -
  have "backoffMs kind attempt \<le> backoffMs kind (attempt + d)"
    by (rule backoffMs_mono) simp
  moreover have "backoffMs kind attempt \<le> backoffCap kind"
    by (rule backoffMs_cap)
  ultimately show ?thesis
    by (simp add: backoffCap_def)
qed

section \<open>The ref table\<close>

lemma digitChar_inj: "a < 10 \<Longrightarrow> b < 10 \<Longrightarrow> digitChar a = digitChar b \<Longrightarrow> a = b"
proof -
  assume a: "a < 10" and b: "b < 10" and eq: "digitChar a = digitChar b"
  from eq have "of_char (char_of (48 + a) :: char) = (of_char (char_of (48 + b) :: char) :: nat)"
    by (simp add: digitChar_def)
  with a b show "a = b" by simp
qed

lemma showNat_nonempty: "showNat n \<noteq> []"
  by (subst showNat.simps) simp

lemma showNat_inj: "showNat n = showNat m \<Longrightarrow> n = m"
proof (induction n arbitrary: m rule: showNat.induct)
  case (1 n)
  show ?case
  proof (cases "n < 10")
    case n: True
    show ?thesis
    proof (cases "m < 10")
      case True
      with n "1.prems" show ?thesis
        by (simp add: showNat.simps [of n] showNat.simps [of m] digitChar_inj)
    next
      case False
      with n "1.prems" showNat_nonempty [of "m div 10"] show ?thesis
        by (simp add: showNat.simps [of n] showNat.simps [of m])
    qed
  next
    case n: False
    show ?thesis
    proof (cases "m < 10")
      case True
      with n "1.prems" showNat_nonempty [of "n div 10"] show ?thesis
        by (simp add: showNat.simps [of n] showNat.simps [of m])
    next
      case False
      with n "1.prems" have eq: "showNat (n div 10) = showNat (m div 10)"
        and dg: "digitChar (n mod 10) = digitChar (m mod 10)"
        by (simp_all add: showNat.simps [of n] showNat.simps [of m])
      from "1.IH" [OF n eq] have "n div 10 = m div 10" .
      moreover from dg have "n mod 10 = m mod 10"
        by (rule digitChar_inj [rotated 2]) simp_all
      ultimately show ?thesis
        by (metis div_mult_mod_eq)
    qed
  qed
qed

lemma refName_inj: "refName a = refName b \<Longrightarrow> a = b"
  by (simp add: refName_def showNat_inj)

lemma refName_nonempty: "refName a \<noteq> []"
  by (simp add: refName_def)

lemma refInv_reset: "refInv (resetRefs st)"
  by (simp add: refInv_def resetRefs_def)

lemma refInv_fresh_key: "refInv st \<Longrightarrow> elementsByRef st (refName (refCounter st + 1)) = None"
proof (rule ccontr)
  assume inv: "refInv st" and "elementsByRef st (refName (refCounter st + 1)) \<noteq> None"
  then obtain e where "elementsByRef st (refName (refCounter st + 1)) = Some e" by auto
  with inv obtain k where "k \<le> refCounter st" "refName (refCounter st + 1) = refName k"
    unfolding refInv_def by blast
  then show False using refName_inj by fastforce
qed

lemma refInv_freshRef:
  assumes inv: "refInv st" and absent: "\<forall>r. elementsByRef st r \<noteq> Some el"
  shows "refInv (snd (freshRef el st))"
  unfolding refInv_def
proof (intro allI impI)
  fix r e
  let ?n = "refCounter st + 1"
  assume look: "elementsByRef (snd (freshRef el st)) r = Some e"
  show "refsByElement (snd (freshRef el st)) e = Some r \<and>
        (\<exists>k. 1 \<le> k \<and> k \<le> refCounter (snd (freshRef el st)) \<and> r = refName k)"
  proof (cases "r = refName ?n")
    case True
    with look have "e = el" by (simp add: freshRef_def Let_def)
    with True show ?thesis by (auto simp: freshRef_def Let_def)
  next
    case False
    with look have old: "elementsByRef st r = Some e" by (simp add: freshRef_def Let_def)
    with absent have "e \<noteq> el" by auto
    moreover from inv old have "refsByElement st e = Some r"
      and "\<exists>k. 1 \<le> k \<and> k \<le> refCounter st \<and> r = refName k"
      unfolding refInv_def by blast+
    ultimately show ?thesis by (auto simp: freshRef_def Let_def)
  qed
qed

text \<open>What one call does, for a live element, in a state that satisfies the invariant.\<close>

lemma getOrCreateRef_cases:
  assumes inv: "refInv st" and live: "alive el"
  shows "(\<exists>r. elementsByRef st r = Some el \<and> getOrCreateRef alive el st = (r, st)) \<or>
         ((\<forall>r. elementsByRef st r \<noteq> Some el) \<and> getOrCreateRef alive el st = freshRef el st)"
proof (cases "\<exists>r. elementsByRef st r = Some el")
  case True
  then obtain r where r: "elementsByRef st r = Some el" by blast
  with inv have byEl: "refsByElement st el = Some r"
    unfolding refInv_def by blast
  from inv r obtain k where "r = refName k"
    unfolding refInv_def by blast
  then have "r \<noteq> []" by (simp add: refName_nonempty)
  note byEl this
  with r live have "getOrCreateRef alive el st = (r, st)"
    by (simp add: getOrCreateRef_def deref_def)
  with r show ?thesis by blast
next
  case False
  then have "getOrCreateRef alive el st = freshRef el st"
    by (auto simp: getOrCreateRef_def deref_def split: option.splits bind_splits if_splits)
  with False show ?thesis by blast
qed

lemma getOrCreateRef_step:
  assumes inv: "refInv st" and live: "alive el" and call: "getOrCreateRef alive el st = (r, st')"
  shows "refInv st' \<and> elementsByRef st \<subseteq>\<^sub>m elementsByRef st' \<and> elementsByRef st' r = Some el"
proof -
  from getOrCreateRef_cases [of st alive el, OF inv live] show ?thesis
  proof
    assume "\<exists>r. elementsByRef st r = Some el \<and> getOrCreateRef alive el st = (r, st)"
    with call inv show ?thesis by auto
  next
    assume fresh: "(\<forall>r. elementsByRef st r \<noteq> Some el) \<and> getOrCreateRef alive el st = freshRef el st"
    with call have eq: "freshRef el st = (r, st')" by simp
    from fresh inv have "refInv (snd (freshRef el st))" by (simp add: refInv_freshRef)
    with eq have "refInv st'" by simp
    moreover from eq refInv_fresh_key [OF inv] have "elementsByRef st \<subseteq>\<^sub>m elementsByRef st'"
      by (auto simp: freshRef_def Let_def map_le_def)
    moreover from eq have "elementsByRef st' r = Some el"
      by (auto simp: freshRef_def Let_def)
    ultimately show ?thesis by simp
  qed
qed

lemma getOrCreateRefs_run:
  assumes "refInv st" and "\<forall>e \<in> set els. alive e" and "getOrCreateRefs alive els st = (refs, st')"
  shows "refInv st' \<and> elementsByRef st \<subseteq>\<^sub>m elementsByRef st' \<and> length refs = length els \<and>
         (\<forall>i < length els. elementsByRef st' (refs ! i) = Some (els ! i))"
  using assms
proof (induction els arbitrary: st refs st')
  case Nil
  then show ?case by simp
next
  case (Cons el els)
  obtain r st1 where one: "getOrCreateRef alive el st = (r, st1)" by (cases "getOrCreateRef alive el st")
  obtain rs st2 where rest: "getOrCreateRefs alive els st1 = (rs, st2)"
    by (cases "getOrCreateRefs alive els st1")
  from Cons.prems(3) one rest have refs: "refs = r # rs" and st': "st' = st2" by simp_all
  from Cons.prems(2) have live: "alive el" and lives: "\<forall>e \<in> set els. alive e" by simp_all
  from getOrCreateRef_step [of st alive el r st1, OF Cons.prems(1) live one]
  have inv1: "refInv st1" and le1: "elementsByRef st \<subseteq>\<^sub>m elementsByRef st1"
    and r: "elementsByRef st1 r = Some el" by simp_all
  from Cons.IH [of st1 rs st2, OF inv1 lives rest]
  have inv2: "refInv st2" and le2: "elementsByRef st1 \<subseteq>\<^sub>m elementsByRef st2"
    and len: "length rs = length els"
    and each: "\<forall>i < length els. elementsByRef st2 (rs ! i) = Some (els ! i)" by simp_all
  from r le2 have r2: "elementsByRef st2 r = Some el"
    by (metis domI map_le_def)
  have "\<forall>i < length (el # els). elementsByRef st2 ((r # rs) ! i) = Some ((el # els) ! i)"
  proof (intro allI impI)
    fix i assume "i < length (el # els)"
    then show "elementsByRef st2 ((r # rs) ! i) = Some ((el # els) ! i)"
      using r2 each by (cases i) simp_all
  qed
  with inv2 le1 le2 len refs st' show ?case
    by (auto intro: map_le_trans)
qed

text \<open>
  C10. Within one build, that is from the reset on, and for elements that are alive:
  \<^verbatim>\<open>getOrCreateRef\<close> returns the same ref whenever it is called again on the same
  element, returns different refs for different elements, and \<^verbatim>\<open>resolveRef\<close> of a
  returned ref yields the element it was returned for.
\<close>

theorem C10_refs_idempotent_injective:
  assumes live: "\<forall>e \<in> set els. alive e"
    and run: "getOrCreateRefs alive els (resetRefs st) = (refs, st')"
    and i: "i < length els" and j: "j < length els"
  shows "length refs = length els \<and>
         (refs ! i = refs ! j \<longleftrightarrow> els ! i = els ! j) \<and>
         resolveRef alive st' (refs ! i) = Some (els ! i)"
proof -
  from getOrCreateRefs_run [of "resetRefs st" els alive refs st', OF refInv_reset live run]
  have inv: "refInv st'" and len: "length refs = length els"
    and each: "\<forall>i < length els. elementsByRef st' (refs ! i) = Some (els ! i)" by simp_all
  from each i j have ri: "elementsByRef st' (refs ! i) = Some (els ! i)"
    and rj: "elementsByRef st' (refs ! j) = Some (els ! j)" by simp_all
  have "refs ! i = refs ! j \<longleftrightarrow> els ! i = els ! j"
  proof
    assume "refs ! i = refs ! j"
    with ri rj show "els ! i = els ! j" by simp
  next
    assume same: "els ! i = els ! j"
    from inv ri have "refsByElement st' (els ! i) = Some (refs ! i)"
      unfolding refInv_def by blast
    moreover from inv rj have "refsByElement st' (els ! j) = Some (refs ! j)"
      unfolding refInv_def by blast
    ultimately show "refs ! i = refs ! j" using same by simp
  qed
  moreover from live i have "alive (els ! i)" by simp
  with ri have "resolveRef alive st' (refs ! i) = Some (els ! i)"
    by (simp add: resolveRef_def deref_def)
  ultimately show ?thesis using len by simp
qed

theorem C10_refs_witness:
  "fst (getOrCreateRefs everAlive [1, 2, 1] (resetRefs emptyRefs)) = [''e1'', ''e2'', ''e1''] \<and>
   resolveRef everAlive (snd (getOrCreateRefs everAlive [1, 2, 1] (resetRefs emptyRefs)))
     (fst (getOrCreateRefs everAlive [1, 2, 1] (resetRefs emptyRefs)) ! 2) = Some 1"
proof -
  let ?run = "getOrCreateRefs everAlive [1, 2, 1] (resetRefs emptyRefs)"
  have live: "\<forall>e \<in> set [1, 2, 1 :: nat]. everAlive e"
    by (simp add: everAlive_def)
  have run: "?run = (fst ?run, snd ?run)"
    by simp
  have i: "2 < length [1, 2, 1 :: nat]" and j: "0 < length [1, 2, 1 :: nat]"
    by simp_all
  from C10_refs_idempotent_injective [OF live run i j]
  have "resolveRef everAlive (snd ?run) (fst ?run ! 2) = Some ([1, 2, 1] ! 2)"
    by blast
  then have "resolveRef everAlive (snd ?run) (fst ?run ! 2) = Some 1"
    by (simp del: getOrCreateRefs.simps)
  moreover have "fst ?run = [''e1'', ''e2'', ''e1'']"
    by code_simp
  ultimately show ?thesis
    by blast
qed

lemma sameResult_pair [simp]: "sameResult (a, s) (b, t) = (a = b \<and> sameTable s t)"
  by (simp add: sameResult_def)














section \<open>Snapshots and the ref table\<close>













section \<open>The character budget\<close>

lemma serializeNode_stops:
  "int count \<ge> maxChars \<Longrightarrow> serializeNode node indent maxChars (lines, count) = (lines, count)"
  by (cases node) simp

text \<open>
  C2, at a budget of 5 characters: the page with one button is serialized to a text of 16
  characters. The budget is tested before a line is appended, never after, so the text
  overshoots by the line that crosses it.
\<close>

theorem C2_budget_exceeded:
  "tree (fst (takeSnapshot everAlive (noOptions\<lparr>optMaxChars := Some 5\<rparr>) goPage emptyRefs))
     = ''button \"Go\" [e1]'' \<and>
   length (tree (fst (takeSnapshot everAlive (noOptions\<lparr>optMaxChars := Some 5\<rparr>) goPage emptyRefs)))
     = 16"
  by code_simp

section \<open>Recording and replay\<close>

lemma replayExecuted_append: "replayExecuted (xs @ ys) = replayExecuted xs @ replayExecuted ys"
  by (induction xs rule: replayExecuted.induct) simp_all

lemma recordSteps_active:
  "activeRecording st = Some rec \<Longrightarrow>
   activeRecording (recordSteps calls st) = Some (rec\<lparr>recSteps := recSteps rec @ map mkStep calls\<rparr>) \<and>
   storedRecordings (recordSteps calls st) = storedRecordings st"
proof (induction calls arbitrary: st rec)
  case Nil
  then show ?case by simp
next
  case (Cons c calls)
  obtain a u result now where c: "c = (a, u, result, now)" by (cases c)
  let ?rec1 = "rec\<lparr>recSteps := recSteps rec @ [mkStep c]\<rparr>"
  let ?st1 = "recordStep a u result now st"
  from Cons.prems c have act: "activeRecording ?st1 = Some ?rec1"
    and sto: "storedRecordings ?st1 = storedRecordings st"
    by (simp_all add: recordStep_def mkStep_def)
  from Cons.IH [OF act] c sto show ?case by simp
qed

lemma recordedRun_result:
  "\<exists>rec. fst (recordedRun task startUrl now rnd calls endNow st) = Some rec \<and>
         recSteps rec = map mkStep calls \<and>
         activeRecording (snd (recordedRun task startUrl now rnd calls endNow st)) = None \<and>
         (if list_ex rsSuccess (recSteps rec)
          then storedRecordings (snd (recordedRun task startUrl now rnd calls endNow st))
                 = Some (take MAX_RECORDINGS (rec # getRecordings st))
          else storedRecordings (snd (recordedRun task startUrl now rnd calls endNow st))
                 = storedRecordings st)"
proof -
  let ?st0 = "startRecording task startUrl now rnd st"
  let ?rec0 = "\<lparr>recId = ''rec_'' @ showNat now @ ''_'' @ rnd, recTask = task,
            recStartUrl = startUrl, recSteps = [], recCreatedAt = now, recDuration = 0\<rparr>"
  have a0: "activeRecording ?st0 = Some ?rec0" by (simp add: startRecording_def)
  have s0: "storedRecordings ?st0 = storedRecordings st" by (simp add: startRecording_def)
  from recordSteps_active [OF a0, of calls] s0
  have a1: "activeRecording (recordSteps calls ?st0) = Some (?rec0\<lparr>recSteps := map mkStep calls\<rparr>)"
    and s1: "storedRecordings (recordSteps calls ?st0) = storedRecordings st" by simp_all
  show ?thesis
    unfolding recordedRun_def stopRecording_def
    using a1 s1
    by (simp add: Let_def saveRecording_def getRecordings_def)
qed

lemma replaySteps_executed:
  assumes "replaySteps exec todo i w = (ok, w', ev)"
  shows "prefix (map fst (replayExecuted ev)) (map rsAction todo) \<and>
         (ok \<longrightarrow> length (replayExecuted ev) = length todo \<and>
                 list_all (\<lambda>x. success (snd x)) (replayExecuted ev)) \<and>
         (\<not> ok \<longrightarrow> replayExecuted ev \<noteq> [] \<and> \<not> success (snd (last (replayExecuted ev))) \<and>
                 list_all (\<lambda>x. success (snd x)) (butlast (replayExecuted ev)))"
  using assms
proof (induction todo arbitrary: i w ok w' ev)
  case Nil
  then show ?case by simp
next
  case (Cons step rest)
  obtain result w1 where ex: "exec (rsAction step) w = (result, w1)"
    by (cases "exec (rsAction step) w")
  show ?case
  proof (cases "success result")
    case False
    with Cons.prems ex show ?thesis
      by (auto simp: Let_def replayExecuted_append)
  next
    case True
    obtain ok2 w2 later where rec: "replaySteps exec rest (i + 1) w1 = (ok2, w2, later)"
      by (cases "replaySteps exec rest (i + 1) w1")
    from Cons.prems ex True rec
    have ok: "ok = ok2" and ev: "replayExecuted ev = (rsAction step, result) # replayExecuted later"
      by (auto simp: Let_def replayExecuted_append)
    from Cons.IH [OF rec] ok ev True show ?thesis
      by (auto simp: butlast.simps)
  qed
qed

lemma list_ex_mkStep: "list_ex rsSuccess (map mkStep calls) = list_ex (\<lambda>c. success (fst (snd (snd c)))) calls"
  by (induction calls) (auto simp: mkStep_def)

lemma replayRecording_executed:
  "replayExecuted (snd (replayRecording exec rec w))
     = replayExecuted (snd (snd (replaySteps exec (filter rsSuccess (recSteps rec)) 0 w)))"
  by (simp add: replayRecording_def Let_def replayExecuted_append split: prod.splits)

text \<open>
  C7. A run whose recorded steps all failed leaves the stored recordings as they were. A run
  with at least one successful step stores its recording, with every step of the run in it,
  at the head of the stored list. Replaying a recording calls \<^verbatim>\<open>executeAction\<close> on the
  actions of its successful steps only, in their order; every call but the last one made has
  succeeded, and if fewer calls were made than there are successful steps then the last call
  failed.
\<close>

theorem C7_recording_gate_and_replay:
  "(\<not> list_ex (\<lambda>c. success (fst (snd (snd c)))) calls \<longrightarrow>
      storedRecordings (snd (recordedRun task startUrl now rnd calls endNow st)) = storedRecordings st) \<and>
   (list_ex (\<lambda>c. success (fst (snd (snd c)))) calls \<longrightarrow>
      (\<exists>rec. fst (recordedRun task startUrl now rnd calls endNow st) = Some rec \<and>
         recSteps rec = map mkStep calls \<and>
         storedRecordings (snd (recordedRun task startUrl now rnd calls endNow st))
           = Some (take MAX_RECORDINGS (rec # getRecordings st)))) \<and>
   prefix (map fst (replayExecuted (snd (replayRecording exec stored w))))
          (map rsAction (filter rsSuccess (recSteps stored))) \<and>
   (\<forall>k. Suc k < length (replayExecuted (snd (replayRecording exec stored w))) \<longrightarrow>
        success (snd (replayExecuted (snd (replayRecording exec stored w)) ! k))) \<and>
   (length (replayExecuted (snd (replayRecording exec stored w)))
      < length (filter rsSuccess (recSteps stored)) \<longrightarrow>
        replayExecuted (snd (replayRecording exec stored w)) \<noteq> [] \<and>
        \<not> success (snd (last (replayExecuted (snd (replayRecording exec stored w))))))"
proof -
  let ?run = "recordedRun task startUrl now rnd calls endNow st"
  from recordedRun_result [of task startUrl now rnd calls endNow st]
  obtain rec where rec: "fst ?run = Some rec" "recSteps rec = map mkStep calls"
    and gate: "if list_ex rsSuccess (recSteps rec)
          then storedRecordings (snd ?run) = Some (take MAX_RECORDINGS (rec # getRecordings st))
          else storedRecordings (snd ?run) = storedRecordings st"
    by blast
  have ex: "list_ex rsSuccess (recSteps rec) = list_ex (\<lambda>c. success (fst (snd (snd c)))) calls"
    by (simp add: rec list_ex_mkStep)
  have none: "\<not> list_ex (\<lambda>c. success (fst (snd (snd c)))) calls \<longrightarrow>
      storedRecordings (snd ?run) = storedRecordings st"
    using gate ex by simp
  have some: "list_ex (\<lambda>c. success (fst (snd (snd c)))) calls \<longrightarrow>
      (\<exists>rec. fst ?run = Some rec \<and> recSteps rec = map mkStep calls \<and>
         storedRecordings (snd ?run) = Some (take MAX_RECORDINGS (rec # getRecordings st)))"
    using gate ex rec by auto
  let ?todo = "filter rsSuccess (recSteps stored)"
  let ?ex = "replayExecuted (snd (replayRecording exec stored w))"
  obtain ok w' ev where loop: "replaySteps exec ?todo 0 w = (ok, w', ev)"
    by (cases "replaySteps exec ?todo 0 w")
  then have exEq: "?ex = replayExecuted ev"
    by (simp add: replayRecording_executed)
  note facts = replaySteps_executed [OF loop]
  from facts have pre: "prefix (map fst ?ex) (map rsAction ?todo)"
    by (simp add: exEq)
  have early: "\<forall>k. Suc k < length ?ex \<longrightarrow> success (snd (?ex ! k))"
  proof (intro allI impI)
    fix k assume k: "Suc k < length ?ex"
    from facts have "list_all (\<lambda>x. success (snd x)) (butlast ?ex)"
      by (cases ok) (auto simp: exEq list_all_iff dest: in_set_butlastD)
    moreover from k have "butlast ?ex ! k = ?ex ! k" and "k < length (butlast ?ex)"
      by (simp_all add: nth_butlast)
    ultimately show "success (snd (?ex ! k))"
      by (metis list_all_length)
  qed
  have halt: "length ?ex < length ?todo \<longrightarrow> ?ex \<noteq> [] \<and> \<not> success (snd (last ?ex))"
    using facts by (cases ok) (simp_all add: exEq)
  from none some pre early halt show ?thesis
    by blast
qed

theorem C7_recording_witness:
  "storedRecordings (snd (recordedRun ''t'' ''u'' 5 ''abcdef'' [hd mixedCalls] 30 noRecordings)) = None \<and>
   map (map rsAction \<circ> recSteps)
       (getRecordings (snd (recordedRun ''t'' ''u'' 5 ''abcdef'' mixedCalls 30 noRecordings)))
     = [[Click ''e9'', Click ''e1'']] \<and>
   map fst (replayExecuted (snd (replayRecording alwaysOk
       (the (fst (recordedRun ''t'' ''u'' 5 ''abcdef'' mixedCalls 30 noRecordings))) ())))
     = [Click ''e1'']"
proof -
  let ?fail = "recordedRun ''t'' ''u'' 5 ''abcdef'' [hd mixedCalls] 30 noRecordings"
  let ?run = "recordedRun ''t'' ''u'' 5 ''abcdef'' mixedCalls 30 noRecordings"
  note gate1 = C7_recording_gate_and_replay
    [of "[hd mixedCalls]" "''t''" "''u''" 5 "''abcdef''" 30 noRecordings alwaysOk "the (fst ?run)" "()"]
  note gate2 = C7_recording_gate_and_replay
    [of mixedCalls "''t''" "''u''" 5 "''abcdef''" 30 noRecordings alwaysOk "the (fst ?run)" "()"]
  have "\<not> list_ex (\<lambda>c. success (fst (snd (snd c)))) [hd mixedCalls]"
    by (simp add: mixedCalls_def failResult_def)
  with gate1 have "storedRecordings (snd ?fail) = storedRecordings noRecordings"
    by blast
  then have a: "storedRecordings (snd ?fail) = None"
    by (simp add: noRecordings_def)
  have "list_ex (\<lambda>c. success (fst (snd (snd c)))) mixedCalls"
    by (simp add: mixedCalls_def okResult_def)
  with gate2 obtain rec where "fst ?run = Some rec" "recSteps rec = map mkStep mixedCalls"
    "storedRecordings (snd ?run) = Some (take MAX_RECORDINGS (rec # getRecordings noRecordings))"
    by blast
  then have b: "map (map rsAction \<circ> recSteps) (getRecordings (snd ?run)) = [[Click ''e9'', Click ''e1'']]"
    by (simp add: getRecordings_def MAX_RECORDINGS_def noRecordings_def mixedCalls_def mkStep_def)
  have c: "map fst (replayExecuted (snd (replayRecording alwaysOk (the (fst ?run)) ()))) = [Click ''e1'']"
    by code_simp
  from a b c show ?thesis
    by blast
qed

section \<open>Planner: reading the page\<close>


lemma emit_simps [simp]:
  "events (emit e st) = events st @ [e]" "history (emit e st) = history st"
  "world (emit e st) = world st" "totalInput (emit e st) = totalInput st"
  "totalOutput (emit e st) = totalOutput st"
  by (simp_all add: emit_def)

lemma sleep_simps [simp]:
  "events (sleep ms st) = events st @ [EvSleep ms]" "history (sleep ms st) = history st"
  "world (sleep ms st) = world st"
  by (simp_all add: sleep_def)

lemma push_simps [simp]:
  "events (push m st) = events st" "history (push m st) = history st @ [m]"
  "world (push m st) = world st"
  by (simp_all add: push_def)

lemma callGetSnapshot_eq:
  "getSnapshot env (world st) = (r, w) \<Longrightarrow>
   callGetSnapshot env st = (r, emit (EvGetSnapshot r) (st\<lparr>world := w\<rparr>))"
  by (simp add: callGetSnapshot_def)

lemma callExecuteAction_eq:
  "executeAction env a (world st) = (r, w) \<Longrightarrow>
   callExecuteAction env a st = (r, emit (EvExecute a r) (st\<lparr>world := w\<rparr>))"
  by (simp add: callExecuteAction_def)

lemma callChat_eq:
  "chat env messages (world st) = (r, w) \<Longrightarrow>
   callChat env messages st = (r, emit (EvChat messages r) (st\<lparr>world := w\<rparr>))"
  by (simp add: callChat_def)

lemma acquireInitial_ok:
  "getSnapshot env (world st) = (Inr s, w1) \<Longrightarrow>
   acquireInitial env st = (Inr s, after st w1 [EvGetSnapshot (Inr s)])"
  by (simp add: acquireInitial_def callGetSnapshot_def after_def emit_def)

lemma acquireInitial_retry:
  "getSnapshot env (world st) = (Inl e1, w1) \<Longrightarrow> getSnapshot env w1 = (r2, w2) \<Longrightarrow>
   acquireInitial env st = (r2, after st w2 [EvGetSnapshot (Inl e1), EvSleep 1000, EvGetSnapshot r2])"
  by (simp add: acquireInitial_def callGetSnapshot_def after_def emit_def sleep_def)

lemma acquireVerify_ok:
  "getSnapshot env (world st) = (Inr s, w1) \<Longrightarrow>
   acquireVerify env st = (s, after st w1 [EvSleep 500, EvGetSnapshot (Inr s)])"
  by (simp add: acquireVerify_def callGetSnapshot_def after_def emit_def sleep_def)

lemma acquireVerify_retry_ok:
  "getSnapshot env (world st) = (Inl e1, w1) \<Longrightarrow> getSnapshot env w1 = (Inr s, w2) \<Longrightarrow>
   acquireVerify env st
     = (s, after st w2 [EvSleep 500, EvGetSnapshot (Inl e1), EvSleep 1500, EvGetSnapshot (Inr s)])"
  by (simp add: acquireVerify_def callGetSnapshot_def after_def emit_def sleep_def)

lemma acquireVerify_placeholder:
  "getSnapshot env (world st) = (Inl e1, w1) \<Longrightarrow> getSnapshot env w1 = (Inl e2, w2) \<Longrightarrow>
   acquireVerify env st
     = (placeholderSnapshot ''(page is loading or unreachable)'' (clock env w2),
        after st w2 [EvSleep 500, EvGetSnapshot (Inl e1), EvSleep 1500, EvGetSnapshot (Inl e2)])"
  by (simp add: acquireVerify_def callGetSnapshot_def after_def emit_def sleep_def)

lemma acquireAfterError_ok:
  "getSnapshot env (world st) = (Inr s, w1) \<Longrightarrow>
   acquireAfterError env st = (s, after st w1 [EvSleep 500, EvGetSnapshot (Inr s)])"
  by (simp add: acquireAfterError_def callGetSnapshot_def after_def emit_def sleep_def)

lemma acquireAfterError_placeholder:
  "getSnapshot env (world st) = (Inl e1, w1) \<Longrightarrow>
   acquireAfterError env st
     = (placeholderSnapshot ''(unable to read page)'' (clock env w1),
        after st w1 [EvSleep 500, EvGetSnapshot (Inl e1)])"
  by (simp add: acquireAfterError_def callGetSnapshot_def after_def emit_def sleep_def)

lemma plannerIteration_unreadable:
  "acquireInitial env st = (Inl retryError, st1) \<Longrightarrow>
   plannerIteration env decode task iteration st
     = Done (emit (EvOnError (''Cannot read page: '' @ retryError
                  @ ''. The content script may not be loaded on this page.'')) st1)"
  by (simp add: plannerIteration_def)

text \<open>
  C9, as the code has it. When reading the page fails twice in a row: at the head of an
  iteration, whichever iteration it is, the one retry comes after 1000 ms and the second
  failure ends the run with an error; for a verification snapshot the one retry comes after
  1500 ms and the second failure yields a placeholder; after a failed action there is no
  retry at all, the first failure yields a placeholder.
\<close>

theorem C9_snapshot_failure_handling:
  assumes first: "getSnapshot env (world st) = (Inl e1, w1)"
    and second: "getSnapshot env w1 = (Inl e2, w2)"
  shows "plannerIteration env decode task iteration st
           = Done (after st w2 [EvGetSnapshot (Inl e1), EvSleep 1000, EvGetSnapshot (Inl e2),
                     EvOnError (''Cannot read page: '' @ e2
                        @ ''. The content script may not be loaded on this page.'')]) \<and>
         acquireVerify env st
           = (placeholderSnapshot ''(page is loading or unreachable)'' (clock env w2),
              after st w2 [EvSleep 500, EvGetSnapshot (Inl e1), EvSleep 1500, EvGetSnapshot (Inl e2)]) \<and>
         acquireAfterError env st
           = (placeholderSnapshot ''(unable to read page)'' (clock env w1),
              after st w1 [EvSleep 500, EvGetSnapshot (Inl e1)])"
proof -
  from acquireInitial_retry [OF first second]
  have "acquireInitial env st
          = (Inl e2, after st w2 [EvGetSnapshot (Inl e1), EvSleep 1000, EvGetSnapshot (Inl e2)])" .
  from plannerIteration_unreadable [OF this, of decode task iteration]
  have "plannerIteration env decode task iteration st
           = Done (after st w2 [EvGetSnapshot (Inl e1), EvSleep 1000, EvGetSnapshot (Inl e2),
                     EvOnError (''Cannot read page: '' @ e2
                        @ ''. The content script may not be loaded on this page.'')])"
    by (simp add: after_def emit_def)
  with acquireVerify_placeholder [OF first second] acquireAfterError_placeholder [OF first]
  show ?thesis by simp
qed

section \<open>Planner: reading the page, on examples\<close>

theorem C9_snapshot_failure_witness:
  "plannerIteration scriptedEnv sampleDecode ''click the Go button'' 3 (initialState ''SYS'' blindWorld)
     = Done (after (initialState ''SYS'' blindWorld) blindWorld
               [EvGetSnapshot pageGone, EvSleep 1000, EvGetSnapshot pageGone,
                EvOnError (''Cannot read page: Error: Could not establish connection''
                   @ ''. The content script may not be loaded on this page.'')]) \<and>
   fst (acquireVerify scriptedEnv (initialState ''SYS'' blindWorld))
     = placeholderSnapshot ''(page is loading or unreachable)'' 0 \<and>
   fst (acquireAfterError scriptedEnv (initialState ''SYS'' blindWorld))
     = placeholderSnapshot ''(unable to read page)'' 0"
proof -
  have first: "getSnapshot scriptedEnv (world (initialState ''SYS'' blindWorld))
                 = (Inl ''Error: Could not establish connection'', blindWorld)"
    by (simp add: scriptedEnv_def initialState_def blindWorld_def)
  have second: "getSnapshot scriptedEnv blindWorld
                 = (Inl ''Error: Could not establish connection'', blindWorld)"
    by (simp add: scriptedEnv_def blindWorld_def)
  have clk: "clock scriptedEnv blindWorld = 0"
    by (simp add: scriptedEnv_def)
  from C9_snapshot_failure_handling [OF first second, of sampleDecode "''click the Go button''" 3] clk
  show ?thesis
    by (simp add: pageGone_def)
qed

text \<open>
  A run on a page that answers the first two snapshots and then no more: the first iteration
  clicks and verifies, the second iteration cannot read the page and the run ends with an
  error, mid-run, without any placeholder.
\<close>

theorem C9_midrun_terminal_error:
  "map eventTag (events (runPlanner scriptedEnv sampleDecode ''SYS'' ''click the Go button''
      \<lparr>snapshotScript = [pageOk, pageOk], actionScript = [okResult],
       chatScript = [says ''one click'', says ''done'']\<rparr>))
   = [''snapshot'', ''chat 2: one click'', ''onPlan'', ''onStepStart 0'', ''action ok'',
      ''onStepComplete'', ''sleep'', ''snapshot'', ''snapshot failed'', ''sleep'',
      ''snapshot failed'',
      ''onError: Cannot read page: Error: Could not establish connection. The content script may not be loaded on this page.'']"
  by code_simp


section \<open>Planner: the batch\<close>

lemma after_simps [simp]:
  "events (after st w new) = events st @ new" "history (after st w new) = history st"
  "world (after st w new) = w"
  by (simp_all add: after_def)

lemma after_after [simp]: "after (after st w new) w' new' = after st w' (new @ new')"
  by (simp add: after_def)

lemma emit_after [simp]: "emit e (after st w new) = after st w (new @ [e])"
  by (simp add: after_def emit_def)

lemma acquireVerify_cases:
  obtains s w1 where "getSnapshot env (world st) = (Inr s, w1)"
      "acquireVerify env st = (s, after st w1 [EvSleep 500, EvGetSnapshot (Inr s)])"
  | e1 w1 s w2 where "getSnapshot env (world st) = (Inl e1, w1)" "getSnapshot env w1 = (Inr s, w2)"
      "acquireVerify env st
         = (s, after st w2 [EvSleep 500, EvGetSnapshot (Inl e1), EvSleep 1500, EvGetSnapshot (Inr s)])"
  | e1 w1 e2 w2 where "getSnapshot env (world st) = (Inl e1, w1)" "getSnapshot env w1 = (Inl e2, w2)"
      "acquireVerify env st
         = (placeholderSnapshot ''(page is loading or unreachable)'' (clock env w2),
            after st w2 [EvSleep 500, EvGetSnapshot (Inl e1), EvSleep 1500, EvGetSnapshot (Inl e2)])"
proof -
  obtain r1 w1 where g1: "getSnapshot env (world st) = (r1, w1)"
    by (cases "getSnapshot env (world st)")
  show thesis
  proof (cases r1)
    case (Inr s)
    with g1 acquireVerify_ok [of env st s w1] that(1) show thesis by simp
  next
    case (Inl e1)
    obtain r2 w2 where g2: "getSnapshot env w1 = (r2, w2)"
      by (cases "getSnapshot env w1")
    show thesis
    proof (cases r2)
      case (Inr s)
      with g1 g2 Inl acquireVerify_retry_ok [of env st e1 w1 s w2] that(2) show thesis by simp
    next
      case inl2: (Inl e2)
      with g1 g2 Inl acquireVerify_placeholder [of env st e1 w1 e2 w2] that(3) show thesis by simp
    qed
  qed
qed

lemma acquireVerify_shape:
  "\<exists>s w new. acquireVerify env st = (s, after st w new) \<and> verifyEvents new"
  by (rule acquireVerify_cases [of env st]) (auto simp: verifyEvents_def)



section \<open>Planner: calling the model\<close>

lemma emit_eq_after: "emit e st = after st (world st) [e]"
  by (simp add: after_def emit_def)

lemma sleep_eq_after: "sleep ms st = after st (world st) [EvSleep ms]"
  by (simp add: after_def sleep_def emit_def)

lemma after_nil [simp]: "after st (world st) [] = st"
  by (simp add: after_def)

lemma callChat_after:
  "chat env messages (world st) = (r, w) \<Longrightarrow> callChat env messages st = (r, after st w [EvChat messages r])"
  by (simp add: callChat_def after_def emit_def)

lemma waiting_simps [simp]:
  "waiting msgs (EvChat m (Inl x)) = (m = msgs)" "waiting msgs (EvOnRateLimit w a)"
  "waiting msgs (EvSleep ms)"
  by (simp_all add: waiting_def)

lemma callLLMWithRetry_trace:
  "callLLMWithRetry env msgs attempt lastError st = (r, st') \<Longrightarrow>
   \<exists>w new. st' = after st w new \<and>
     (case r of Inr resp \<Rightarrow> \<exists>pre. new = pre @ [EvChat msgs (Inr resp)] \<and> list_all (waiting msgs) pre
              | Inl e \<Rightarrow> list_all (waiting msgs) new) \<and>
     (attempt \<le> MAX_API_RETRIES \<longrightarrow> (\<exists>cr more. new = EvChat msgs cr # more))"
proof (induction env msgs attempt lastError st arbitrary: r st' rule: callLLMWithRetry.induct)
  case (1 env messages attempt lastError st)
  note run = "1.prems" [unfolded callLLMWithRetry.simps [of env messages attempt lastError st]]
  show ?case
  proof (cases "attempt > MAX_API_RETRIES")
    case True
    with run have "r = Inl (case lastError of None \<Rightarrow> ''null'' | Some m \<Rightarrow> m)" "st' = st"
      by auto
    then have "st' = after st (world st) []" by simp
    with True \<open>r = Inl _\<close> show ?thesis
      by (intro exI [of _ "world st"] exI [of _ "[]"]) simp
  next
    case False
    obtain cr w1 where ch: "chat env messages (world st) = (cr, w1)"
      by (cases "chat env messages (world st)")
    note call = callChat_after [OF ch]
    let ?st1 = "after st w1 [EvChat messages cr]"
    show ?thesis
    proof (cases cr)
      case (Inr response)
      with run False call have "r = Inr response" "st' = ?st1"
        by auto
      with Inr show ?thesis
        by (intro exI [of _ w1] exI [of _ "[EvChat messages cr]"]) simp
    next
      case (Inl msg)
      show ?thesis
      proof (cases "classifyError msg")
        case Fatal
        with run False call Inl have "r = Inl msg" "st' = ?st1"
          by auto
        with Inl show ?thesis
          by (intro exI [of _ w1] exI [of _ "[EvChat messages cr]"]) simp
      next
        case (Retryable kind)
        show ?thesis
        proof (cases "attempt = MAX_API_RETRIES")
          case True
          with run call Inl Retryable have "r = Inl msg" "st' = ?st1"
            by auto
          with Inl show ?thesis
            by (intro exI [of _ w1] exI [of _ "[EvChat messages cr]"]) simp
        next
          case nm: False
          let ?wait = "backoffMs kind attempt"
          let ?st3 = "after st w1 [EvChat messages cr, EvOnRateLimit ?wait (attempt + 1), EvSleep ?wait]"
          have st3: "sleep ?wait (emit (EvOnRateLimit ?wait (attempt + 1)) ?st1) = ?st3"
            by (simp add: sleep_eq_after emit_eq_after)
          from run False nm call Inl Retryable st3
          have rec: "callLLMWithRetry env messages (attempt + 1) (Some msg) ?st3 = (r, st')"
            by (simp add: Let_def)
          from "1.IH" [OF False call [symmetric] Inl Retryable nm refl refl st3 [symmetric] rec]
          obtain w new where st': "st' = after ?st3 w new"
            and res: "case r of Inr resp \<Rightarrow> \<exists>pre. new = pre @ [EvChat messages (Inr resp)] \<and> list_all (waiting messages) pre
                       | Inl e \<Rightarrow> list_all (waiting messages) new"
            by blast
          let ?head = "[EvChat messages cr, EvOnRateLimit ?wait (attempt + 1), EvSleep ?wait]"
          have hd: "list_all (waiting messages) ?head"
            using Inl by simp
          have "case r of Inr resp \<Rightarrow> \<exists>pre. ?head @ new = pre @ [EvChat messages (Inr resp)] \<and> list_all (waiting messages) pre
                       | Inl e \<Rightarrow> list_all (waiting messages) (?head @ new)"
          proof (cases r)
            case (Inl e)
            with res hd show ?thesis by simp
          next
            case (Inr resp)
            with res obtain pre where "new = pre @ [EvChat messages (Inr resp)]" "list_all (waiting messages) pre"
              by auto
            with hd Inr show ?thesis
              by (auto intro!: exI [of _ "?head @ pre"])
          qed
          with st' show ?thesis
            by (intro exI [of _ w] exI [of _ "?head @ new"]) simp
        qed
      qed
    qed
  qed
qed

lemma quiet_simps [simp]:
  "quiet decode (EvGetSnapshot r)" "quiet decode (EvExecute a sr)" "quiet decode (EvChat m (Inl x))"
  "quiet decode (EvSleep ms)" "quiet decode (EvOnPlan p)" "quiet decode (EvOnStepStart s i)"
  "quiet decode (EvOnStepComplete s sr)" "\<not> quiet decode (EvOnComplete t)"
  "quiet decode (EvOnError t)" "quiet decode (EvOnUsage ti to)" "quiet decode (EvOnRateLimit w n)"
  by (simp_all add: quiet_def)

lemma quiet_chat:
  "quiet decode (EvChat m (Inr resp))
     = (case parsePlan decode (respContent resp) of Inr p \<Rightarrow> steps p \<noteq> [] | Inl x \<Rightarrow> True)"
  by (simp add: quiet_def)

lemma waiting_quiet: "waiting msgs e \<Longrightarrow> quiet decode e"
  by (cases e) (auto simp: waiting_def split: sum.splits)

lemma waiting_all_quiet: "list_all (waiting msgs) evs \<Longrightarrow> list_all (quiet decode) evs"
  by (induction evs) (auto intro: waiting_quiet)

lemma usageOnly_quiet: "usageOnly u \<Longrightarrow> list_all (quiet decode) u"
  by (auto simp: usageOnly_def)

lemma addUsage_facts:
  "\<exists>u. usageOnly u \<and> events (addUsage resp st) = events st @ u \<and>
       history (addUsage resp st) = history st \<and> world (addUsage resp st) = world st"
  by (cases "usage resp") (auto simp: addUsage_def usageOnly_def Let_def)

lemma withCorrective_facts [simp]:
  "events (withCorrective ja lpe st) = events st" "world (withCorrective ja lpe st) = world st"
  by (auto simp: withCorrective_def split: option.splits)


lemma getPlanFromLLM_unfold:
  "getPlanFromLLM env decode ja lpe st =
     (if ja > MAX_JSON_RETRIES then (Inl ''Unreachable'', st)
      else
        (case callLLMWithRetry env (history (withCorrective ja lpe st)) 0 None (withCorrective ja lpe st) of
           (Inl msg, st2) \<Rightarrow> (Inl msg, st2)
         | (Inr response, st2) \<Rightarrow>
             (case parsePlan decode (respContent response) of
                Inr p \<Rightarrow>
                  (Inr p, push \<lparr>msgRole = Assistant, content = respContent response\<rparr>
                     (if ja > 0
                      then (addUsage response st2)\<lparr>history := popCorrective (history (addUsage response st2))\<rparr>
                      else addUsage response st2))
              | Inl parseError \<Rightarrow>
                  if ja = MAX_JSON_RETRIES
                  then (Inl (''LLM returned invalid JSON after '' @ showNat (MAX_JSON_RETRIES + 1)
                             @ '' attempts. Last error: '' @ parseError),
                        push \<lparr>msgRole = Assistant, content = respContent response\<rparr> (addUsage response st2))
                  else getPlanFromLLM env decode (ja + 1) (Some parseError)
                         (push \<lparr>msgRole = Assistant, content = respContent response\<rparr>
                            (addUsage response st2)))))"
  by (subst getPlanFromLLM.simps)
     (simp add: Let_def withCorrective_def split: prod.splits sum.splits option.splits)

text \<open>The ways through one attempt of \<^verbatim>\<open>getPlanFromLLM\<close>.\<close>

lemma getPlanFromLLM_cases:
  assumes run: "getPlanFromLLM env decode ja lpe st = (r, st')"
  obtains (unreachable) "ja > MAX_JSON_RETRIES" "r = Inl ''Unreachable''" "st' = st"
  | (apiError) msg where "ja \<le> MAX_JSON_RETRIES"
      "callLLMWithRetry env (history (withCorrective ja lpe st)) 0 None (withCorrective ja lpe st) = (Inl msg, st')"
      "r = Inl msg"
  | (parsed) response st2 p where "ja \<le> MAX_JSON_RETRIES"
      "callLLMWithRetry env (history (withCorrective ja lpe st)) 0 None (withCorrective ja lpe st)
         = (Inr response, st2)"
      "parsePlan decode (respContent response) = Inr p" "r = Inr p"
      "st' = push \<lparr>msgRole = Assistant, content = respContent response\<rparr>
               (if ja > 0 then (addUsage response st2)\<lparr>history := popCorrective (history (addUsage response st2))\<rparr>
                else addUsage response st2)"
  | (gaveUp) response st2 parseError where "ja = MAX_JSON_RETRIES"
      "callLLMWithRetry env (history (withCorrective ja lpe st)) 0 None (withCorrective ja lpe st)
         = (Inr response, st2)"
      "parsePlan decode (respContent response) = Inl parseError"
      "r = Inl (''LLM returned invalid JSON after '' @ showNat (MAX_JSON_RETRIES + 1)
                 @ '' attempts. Last error: '' @ parseError)"
      "st' = push \<lparr>msgRole = Assistant, content = respContent response\<rparr> (addUsage response st2)"
  | (again) response st2 parseError where "ja < MAX_JSON_RETRIES"
      "callLLMWithRetry env (history (withCorrective ja lpe st)) 0 None (withCorrective ja lpe st)
         = (Inr response, st2)"
      "parsePlan decode (respContent response) = Inl parseError"
      "getPlanFromLLM env decode (ja + 1) (Some parseError)
         (push \<lparr>msgRole = Assistant, content = respContent response\<rparr> (addUsage response st2)) = (r, st')"
proof -
  from run have eq: "(r, st') =
     (if ja > MAX_JSON_RETRIES then (Inl ''Unreachable'', st)
      else
        (case callLLMWithRetry env (history (withCorrective ja lpe st)) 0 None (withCorrective ja lpe st) of
           (Inl msg, st2) \<Rightarrow> (Inl msg, st2)
         | (Inr response, st2) \<Rightarrow>
             (case parsePlan decode (respContent response) of
                Inr p \<Rightarrow>
                  (Inr p, push \<lparr>msgRole = Assistant, content = respContent response\<rparr>
                     (if ja > 0
                      then (addUsage response st2)\<lparr>history := popCorrective (history (addUsage response st2))\<rparr>
                      else addUsage response st2))
              | Inl parseError \<Rightarrow>
                  if ja = MAX_JSON_RETRIES
                  then (Inl (''LLM returned invalid JSON after '' @ showNat (MAX_JSON_RETRIES + 1)
                             @ '' attempts. Last error: '' @ parseError),
                        push \<lparr>msgRole = Assistant, content = respContent response\<rparr> (addUsage response st2))
                  else getPlanFromLLM env decode (ja + 1) (Some parseError)
                         (push \<lparr>msgRole = Assistant, content = respContent response\<rparr>
                            (addUsage response st2)))))"
    by (subst getPlanFromLLM_unfold [symmetric]) simp
  show thesis
  proof (cases "ja > MAX_JSON_RETRIES")
    case True
    with eq have "r = Inl ''Unreachable''" "st' = st" by simp_all
    with True show thesis by (rule unreachable)
  next
    case False
    then have le: "ja \<le> MAX_JSON_RETRIES" by simp
    obtain r2 st2 where call:
      "callLLMWithRetry env (history (withCorrective ja lpe st)) 0 None (withCorrective ja lpe st) = (r2, st2)"
      by (cases "callLLMWithRetry env (history (withCorrective ja lpe st)) 0 None (withCorrective ja lpe st)")
    show thesis
    proof (cases r2)
      case (Inl msg)
      with eq False call have "r = Inl msg" "st' = st2" by simp_all
      with call Inl le show thesis by (intro apiError [of msg]) simp_all
    next
      case (Inr response)
      note call' = call [unfolded Inr]
      show thesis
      proof (cases "parsePlan decode (respContent response)")
        case p: (Inr p)
        with eq False call' have "r = Inr p"
          "st' = push \<lparr>msgRole = Assistant, content = respContent response\<rparr>
               (if ja > 0 then (addUsage response st2)\<lparr>history := popCorrective (history (addUsage response st2))\<rparr>
                else addUsage response st2)"
          by simp_all
        with le call' p show thesis by (intro parsed [of response st2 p])
      next
        case pe: (Inl parseError)
        show thesis
        proof (cases "ja = MAX_JSON_RETRIES")
          case True
          with eq call' pe have
            "r = Inl (''LLM returned invalid JSON after '' @ showNat (MAX_JSON_RETRIES + 1)
                 @ '' attempts. Last error: '' @ parseError)"
            "st' = push \<lparr>msgRole = Assistant, content = respContent response\<rparr> (addUsage response st2)"
            by simp_all
          with True call' pe show thesis by (intro gaveUp [of response st2 parseError])
        next
          case ne: False
          with le have lt: "ja < MAX_JSON_RETRIES" by simp
          from eq False ne call' pe have
            "getPlanFromLLM env decode (ja + 1) (Some parseError)
               (push \<lparr>msgRole = Assistant, content = respContent response\<rparr> (addUsage response st2)) = (r, st')"
            by simp
          with lt call' pe show thesis by (intro again [of response st2 parseError])
        qed
      qed
    qed
  qed
qed

section \<open>Planner: what the model call and the batch leave in the trace\<close>

lemma events_history_update [simp]: "events (st\<lparr>history := h\<rparr>) = events st"
  by simp

lemma callLLMWithRetry_ok:
  assumes "callLLMWithRetry env msgs 0 lastError st = (Inr resp, st')"
  shows "\<exists>w new pre. st' = after st w new \<and> new = pre @ [EvChat msgs (Inr resp)] \<and>
           list_all (waiting msgs) pre \<and> (\<exists>cr more. new = EvChat msgs cr # more)"
  using callLLMWithRetry_trace [OF assms] by (simp split: sum.splits) blast

lemma callLLMWithRetry_err:
  assumes "callLLMWithRetry env msgs 0 lastError st = (Inl e, st')"
  shows "\<exists>w new. st' = after st w new \<and> list_all (waiting msgs) new \<and>
           (\<exists>cr more. new = EvChat msgs cr # more)"
  using callLLMWithRetry_trace [OF assms] by auto

lemma getPlanFromLLM_events:
  "getPlanFromLLM env decode ja lpe st = (r, st') \<Longrightarrow>
   \<exists>new. events st' = events st @ new \<and>
     (case r of Inl e \<Rightarrow> list_all (quiet decode) new
      | Inr p \<Rightarrow> \<exists>pre msgs resp u. new = pre @ [EvChat msgs (Inr resp)] @ u \<and>
                   list_all (quiet decode) pre \<and> parsePlan decode (respContent resp) = Inr p \<and>
                   usageOnly u) \<and>
     (ja \<le> MAX_JSON_RETRIES \<longrightarrow>
        (\<exists>cr more. new = EvChat (history (withCorrective ja lpe st)) cr # more))"
proof (induction "Suc MAX_JSON_RETRIES - ja" arbitrary: ja lpe st r st')
  case 0
  then have big: "ja > MAX_JSON_RETRIES" by simp
  from "0.prems" show ?case
  proof (cases rule: getPlanFromLLM_cases)
    case unreachable
    then show ?thesis by (intro exI [of _ "[]"]) simp
  qed (use big in simp_all)
next
  case (Suc k)
  let ?st1 = "withCorrective ja lpe st"
  let ?msgs = "history ?st1"
  from Suc.prems show ?case
  proof (cases rule: getPlanFromLLM_cases)
    case unreachable
    then show ?thesis by (intro exI [of _ "[]"]) simp
  next
    case (apiError msg)
    from callLLMWithRetry_err [OF apiError(2)]
    obtain w new where st': "st' = after ?st1 w new" and q: "list_all (waiting ?msgs) new"
      and first: "\<exists>cr more. new = EvChat ?msgs cr # more"
      by blast
    from st' have "events st' = events st @ new" by simp
    moreover have "case r of Inl e \<Rightarrow> list_all (quiet decode) new
      | Inr p \<Rightarrow> \<exists>pre msgs resp u'. new = pre @ [EvChat msgs (Inr resp)] @ u' \<and>
                   list_all (quiet decode) pre \<and> parsePlan decode (respContent resp) = Inr p \<and>
                   usageOnly u'"
      unfolding apiError(3) using q by (simp add: waiting_all_quiet)
    ultimately show ?thesis using first by blast
  next
    case (parsed response st2 p)
    from callLLMWithRetry_ok [OF parsed(2)]
    obtain w new pre where st2: "st2 = after ?st1 w new"
      and new: "new = pre @ [EvChat ?msgs (Inr response)]" and q: "list_all (waiting ?msgs) pre"
      and first: "\<exists>cr more. new = EvChat ?msgs cr # more"
      by blast
    from addUsage_facts [of response st2]
    obtain u where u: "usageOnly u" "events (addUsage response st2) = events st2 @ u"
      by blast
    have e2: "events st2 = events st @ new" by (simp add: st2)
    have "events st' = events (addUsage response st2)" by (simp add: parsed(5))
    with u(2) e2 have ev: "events st' = events st @ new @ u" by simp
    from first have f: "\<exists>cr more. new @ u = EvChat ?msgs cr # more" by auto
    have "list_all (quiet decode) pre" using q by (rule waiting_all_quiet)
    with new u(1) parsed(3) have res: "case r of Inl e \<Rightarrow> list_all (quiet decode) (new @ u)
      | Inr p \<Rightarrow> \<exists>pre msgs resp u'. new @ u = pre @ [EvChat msgs (Inr resp)] @ u' \<and>
                   list_all (quiet decode) pre \<and> parsePlan decode (respContent resp) = Inr p \<and>
                   usageOnly u'"
      unfolding parsed(4) by auto
    from ev res f show ?thesis by blast
  next
    case (gaveUp response st2 parseError)
    from callLLMWithRetry_ok [OF gaveUp(2)]
    obtain w new pre where st2: "st2 = after ?st1 w new"
      and new: "new = pre @ [EvChat ?msgs (Inr response)]" and q: "list_all (waiting ?msgs) pre"
      and first: "\<exists>cr more. new = EvChat ?msgs cr # more"
      by blast
    from addUsage_facts [of response st2]
    obtain u where u: "usageOnly u" "events (addUsage response st2) = events st2 @ u"
      by blast
    have e2: "events st2 = events st @ new" by (simp add: st2)
    have "events st' = events (addUsage response st2)" by (simp add: gaveUp(5))
    with u(2) e2 have ev: "events st' = events st @ new @ u" by simp
    from first have f: "\<exists>cr more. new @ u = EvChat ?msgs cr # more" by auto
    have "list_all (quiet decode) (new @ u)"
      using new q u(1) gaveUp(3) by (simp add: waiting_all_quiet usageOnly_quiet quiet_chat)
    then have res: "case r of Inl e \<Rightarrow> list_all (quiet decode) (new @ u)
      | Inr p \<Rightarrow> \<exists>pre msgs resp u'. new @ u = pre @ [EvChat msgs (Inr resp)] @ u' \<and>
                   list_all (quiet decode) pre \<and> parsePlan decode (respContent resp) = Inr p \<and>
                   usageOnly u'"
      unfolding gaveUp(4) by simp
    from ev res f show ?thesis by blast
  next
    case (again response st2 parseError)
    from callLLMWithRetry_ok [OF again(2)]
    obtain w new pre where st2: "st2 = after ?st1 w new"
      and new: "new = pre @ [EvChat ?msgs (Inr response)]" and q: "list_all (waiting ?msgs) pre"
      and first: "\<exists>cr more. new = EvChat ?msgs cr # more"
      by blast
    from addUsage_facts [of response st2]
    obtain u where u: "usageOnly u" "events (addUsage response st2) = events st2 @ u"
      by blast
    let ?st4 = "push \<lparr>msgRole = Assistant, content = respContent response\<rparr> (addUsage response st2)"
    have e2: "events st2 = events st @ new" by (simp add: st2)
    have "events ?st4 = events (addUsage response st2)" by simp
    with u(2) e2 have ev4: "events ?st4 = events st @ new @ u" by simp
    have k: "k = Suc MAX_JSON_RETRIES - (ja + 1)" using Suc.hyps(2) by simp
    from Suc.hyps(1) [OF k again(4)]
    obtain new' where ev': "events st' = events ?st4 @ new'"
      and res: "case r of Inl e \<Rightarrow> list_all (quiet decode) new'
        | Inr p \<Rightarrow> \<exists>pre msgs resp u. new' = pre @ [EvChat msgs (Inr resp)] @ u \<and>
                   list_all (quiet decode) pre \<and> parsePlan decode (respContent resp) = Inr p \<and>
                   usageOnly u"
      by blast
    have head: "list_all (quiet decode) (new @ u)"
      using new q u(1) again(3) by (simp add: waiting_all_quiet usageOnly_quiet quiet_chat)
    from first have f: "\<exists>cr more. new @ u @ new' = EvChat ?msgs cr # more" by auto
    have res': "case r of Inl e \<Rightarrow> list_all (quiet decode) (new @ u @ new')
        | Inr p \<Rightarrow> \<exists>pre msgs resp u'. new @ u @ new' = pre @ [EvChat msgs (Inr resp)] @ u' \<and>
                   list_all (quiet decode) pre \<and> parsePlan decode (respContent resp) = Inr p \<and>
                   usageOnly u'"
    proof (cases r)
      case (Inl e)
      with res head show ?thesis by simp
    next
      case (Inr p)
      with res obtain pre' msgs' resp' u' where
        "new' = pre' @ [EvChat msgs' (Inr resp')] @ u'" "list_all (quiet decode) pre'"
        "parsePlan decode (respContent resp') = Inr p" "usageOnly u'"
        by auto
      note parts = this
      have "new @ u @ new' = (new @ u @ pre') @ [EvChat msgs' (Inr resp')] @ u'"
        using parts(1) by simp
      moreover have "list_all (quiet decode) (new @ u @ pre')"
        using head parts(2) by simp
      ultimately have "\<exists>pre msgs resp u'. new @ u @ new' = pre @ [EvChat msgs (Inr resp)] @ u' \<and>
                   list_all (quiet decode) pre \<and> parsePlan decode (respContent resp) = Inr p \<and>
                   usageOnly u'"
        using parts(3,4) by blast
      then show ?thesis unfolding Inr by simp
    qed
    from ev' ev4 have "events st' = events st @ new @ u @ new'" by simp
    with res' f show ?thesis by blast
  qed
qed

lemma batchEvent_simps [simp]:
  "batchEvent (EvOnStepStart s i)" "batchEvent (EvExecute a r)" "batchEvent (EvOnStepComplete s r)"
  "batchEvent (EvSleep ms)" "batchEvent (EvGetSnapshot sr)"
  by (simp_all add: batchEvent_def)

lemma failedExec_simps [simp]:
  "failedExec (EvExecute a r) = (\<not> success r)" "\<not> failedExec (EvOnStepStart s i)"
  "\<not> failedExec (EvOnStepComplete s r)" "\<not> failedExec (EvSleep ms)" "\<not> failedExec (EvGetSnapshot sr)"
  by (simp_all add: failedExec_def)

lemma verifyEvents_batch: "verifyEvents new \<Longrightarrow> list_all batchEvent new \<and> \<not> list_ex failedExec new"
  by (auto simp: verifyEvents_def)

lemma acquireAfterError_shape:
  "\<exists>s w r1. acquireAfterError env st = (s, after st w [EvSleep 500, EvGetSnapshot r1])"
proof -
  obtain r1 w1 where g: "getSnapshot env (world st) = (r1, w1)"
    by (cases "getSnapshot env (world st)")
  show ?thesis
  proof (cases r1)
    case (Inl e1)
    with g acquireAfterError_placeholder [of env st e1 w1] show ?thesis by blast
  next
    case (Inr s)
    with g acquireAfterError_ok [of env st s w1] show ?thesis by blast
  qed
qed

text \<open>The three ways through one round of the batch loop.\<close>

lemma executeSteps_step:
  obtains (failed) result w1 s w r1 where
      "executeAction env (psAction step) (world st) = (result, w1)" "\<not> success result"
      "executeSteps env (step # rest) i n st
         = (True, push (errorTurn result (psAction step) s)
                    (after st w [EvOnStepStart step i, EvExecute (psAction step) result,
                                 EvOnStepComplete step result, EvSleep 500, EvGetSnapshot r1]))"
  | (verified) result w1 s w new where
      "executeAction env (psAction step) (world st) = (result, w1)" "success result"
      "needsVerification step \<or> actionNeedsVerification (psAction step)" "int i < int n - 1"
      "verifyEvents new"
      "executeSteps env (step # rest) i n st
         = (True, push (verificationTurn (psAction step) s)
                    (after st w ([EvOnStepStart step i, EvExecute (psAction step) result,
                                  EvOnStepComplete step result] @ new)))"
  | (continue) result w1 where
      "executeAction env (psAction step) (world st) = (result, w1)" "success result"
      "\<not> ((needsVerification step \<or> actionNeedsVerification (psAction step)) \<and> int i < int n - 1)"
      "executeSteps env (step # rest) i n st
         = executeSteps env rest (i + 1) n
             (after st w1 [EvOnStepStart step i, EvExecute (psAction step) result,
                           EvOnStepComplete step result])"
proof -
  obtain result w1 where exec: "executeAction env (psAction step) (world st) = (result, w1)"
    by (cases "executeAction env (psAction step) (world st)")
  let ?st3 = "after st w1 [EvOnStepStart step i, EvExecute (psAction step) result,
                           EvOnStepComplete step result]"
  have call: "callExecuteAction env (psAction step) (emit (EvOnStepStart step i) st)
                = (result, after st w1 [EvOnStepStart step i, EvExecute (psAction step) result])"
    using exec by (simp add: callExecuteAction_def after_def emit_def)
  show thesis
  proof (cases "success result")
    case False
    from acquireAfterError_shape [of env ?st3]
    obtain s w r1 where a: "acquireAfterError env ?st3 = (s, after ?st3 w [EvSleep 500, EvGetSnapshot r1])"
      by blast
    have "executeSteps env (step # rest) i n st
         = (True, push (errorTurn result (psAction step) s)
                    (after st w [EvOnStepStart step i, EvExecute (psAction step) result,
                                 EvOnStepComplete step result, EvSleep 500, EvGetSnapshot r1]))"
      using False call a by (simp add: Let_def)
    with exec False show thesis by (rule failed)
  next
    case True
    show thesis
    proof (cases "(needsVerification step \<or> actionNeedsVerification (psAction step)) \<and> int i < int n - 1")
      case v: True
      from acquireVerify_shape [of env ?st3]
      obtain s w new where a: "acquireVerify env ?st3 = (s, after ?st3 w new)" and shape: "verifyEvents new"
        by blast
      have "executeSteps env (step # rest) i n st
         = (True, push (verificationTurn (psAction step) s)
                    (after st w ([EvOnStepStart step i, EvExecute (psAction step) result,
                                  EvOnStepComplete step result] @ new)))"
        using True v call a by (simp add: Let_def)
      with exec True v shape show thesis by (intro verified [of result w1 new s w]) simp_all
    next
      case c: False
      have "executeSteps env (step # rest) i n st = executeSteps env rest (i + 1) n ?st3"
        using True c call by (auto simp: Let_def)
      with exec True c show thesis by (intro continue [of result w1]) simp_all
    qed
  qed
qed

declare executeSteps.simps(2) [simp del]

lemma executeSteps_trace:
  "executeSteps env todo i n st = (rp, st') \<Longrightarrow>
   \<exists>new. events st' = events st @ new \<and> list_all batchEvent new \<and>
     (if rp then \<exists>m. history st' = history st @ [m] \<and> msgRole m = User
      else history st' = history st) \<and>
     (list_ex failedExec new \<longrightarrow> rp \<and>
        (\<exists>pre a r step r1 s.
           new = pre @ [EvExecute a r, EvOnStepComplete step r, EvSleep 500, EvGetSnapshot r1] \<and>
           \<not> success r \<and> \<not> list_ex failedExec pre \<and>
           history st' = history st @ [errorTurn r a s]))"
proof (induction todo arbitrary: i st rp st')
  case Nil
  then show ?case by (intro exI [of _ "[]"]) auto
next
  case (Cons step rest)
  show ?case
  proof (rule executeSteps_step [of env step st rest i n])
    fix result w1 s w r1
    let ?new = "[EvOnStepStart step i, EvExecute (psAction step) result,
                 EvOnStepComplete step result, EvSleep 500, EvGetSnapshot r1]"
    assume fail: "\<not> success result"
      and eq: "executeSteps env (step # rest) i n st
         = (True, push (errorTurn result (psAction step) s) (after st w ?new))"
    with Cons.prems have rp: "rp" and st': "st' = push (errorTurn result (psAction step) s) (after st w ?new)"
      by simp_all
    have "?new = [EvOnStepStart step i] @ [EvExecute (psAction step) result,
                 EvOnStepComplete step result, EvSleep 500, EvGetSnapshot r1]"
      by simp
    moreover have "\<not> list_ex failedExec [EvOnStepStart step i]" by simp
    moreover have "history st' = history st @ [errorTurn result (psAction step) s]"
      by (simp add: st')
    ultimately have shape: "\<exists>pre a r step' r1 s.
           ?new = pre @ [EvExecute a r, EvOnStepComplete step' r, EvSleep 500, EvGetSnapshot r1] \<and>
           \<not> success r \<and> \<not> list_ex failedExec pre \<and>
           history st' = history st @ [errorTurn r a s]"
      using fail by blast
    have "events st' = events st @ ?new" by (simp add: st')
    moreover have "list_all batchEvent ?new" by simp
    moreover have "\<exists>m. history st' = history st @ [m] \<and> msgRole m = User"
      by (simp add: st' errorTurn_def)
    ultimately show ?thesis using rp shape by (intro exI [of _ ?new]) simp
  next
    fix result w1 s w new
    let ?new = "[EvOnStepStart step i, EvExecute (psAction step) result,
                 EvOnStepComplete step result] @ new"
    assume ok: "success result" and v: "verifyEvents new"
      and eq: "executeSteps env (step # rest) i n st
         = (True, push (verificationTurn (psAction step) s) (after st w ?new))"
    with Cons.prems have rp: "rp" and st': "st' = push (verificationTurn (psAction step) s) (after st w ?new)"
      by simp_all
    from verifyEvents_batch [OF v] ok have "list_all batchEvent ?new" "\<not> list_ex failedExec ?new"
      by simp_all
    moreover have "events st' = events st @ ?new" by (simp add: st')
    moreover have "\<exists>m. history st' = history st @ [m] \<and> msgRole m = User"
      by (simp add: st' verificationTurn_def)
    ultimately show ?thesis using rp by (intro exI [of _ ?new]) simp
  next
    fix result w1
    let ?head = "[EvOnStepStart step i, EvExecute (psAction step) result, EvOnStepComplete step result]"
    let ?st3 = "after st w1 ?head"
    assume ok: "success result"
      and eq: "executeSteps env (step # rest) i n st = executeSteps env rest (i + 1) n ?st3"
    with Cons.prems have "executeSteps env rest (i + 1) n ?st3 = (rp, st')" by simp
    from Cons.IH [OF this]
    obtain new where ev: "events st' = events ?st3 @ new" and be: "list_all batchEvent new"
      and hist: "if rp then \<exists>m. history st' = history ?st3 @ [m] \<and> msgRole m = User
                 else history st' = history ?st3"
      and fl: "list_ex failedExec new \<longrightarrow> rp \<and>
        (\<exists>pre a r step r1 s.
           new = pre @ [EvExecute a r, EvOnStepComplete step r, EvSleep 500, EvGetSnapshot r1] \<and>
           \<not> success r \<and> \<not> list_ex failedExec pre \<and>
           history st' = history ?st3 @ [errorTurn r a s])"
      by blast
    have nf: "\<not> list_ex failedExec ?head" using ok by simp
    have "list_ex failedExec (?head @ new) \<longrightarrow> rp \<and>
        (\<exists>pre a r step r1 s.
           ?head @ new = pre @ [EvExecute a r, EvOnStepComplete step r, EvSleep 500, EvGetSnapshot r1] \<and>
           \<not> success r \<and> \<not> list_ex failedExec pre \<and>
           history st' = history st @ [errorTurn r a s])"
    proof
      assume "list_ex failedExec (?head @ new)"
      with nf have "list_ex failedExec new" by simp
      with fl obtain pre a r step' r1 s where rp: rp
        and new: "new = pre @ [EvExecute a r, EvOnStepComplete step' r, EvSleep 500, EvGetSnapshot r1]"
        and rest: "\<not> success r" "\<not> list_ex failedExec pre" "history st' = history ?st3 @ [errorTurn r a s]"
        by blast
      from new have "?head @ new = (?head @ pre) @ [EvExecute a r, EvOnStepComplete step' r, EvSleep 500, EvGetSnapshot r1]"
        by simp
      moreover from nf rest(2) have "\<not> list_ex failedExec (?head @ pre)" by simp
      moreover from rest(3) have "history st' = history st @ [errorTurn r a s]" by simp
      ultimately show "rp \<and>
        (\<exists>pre a r step r1 s.
           ?head @ new = pre @ [EvExecute a r, EvOnStepComplete step r, EvSleep 500, EvGetSnapshot r1] \<and>
           \<not> success r \<and> \<not> list_ex failedExec pre \<and>
           history st' = history st @ [errorTurn r a s])"
        using rp rest(1) by blast
    qed
    moreover have "events st' = events st @ ?head @ new" using ev by simp
    moreover have "list_all batchEvent (?head @ new)" using be by simp
    moreover have "if rp then \<exists>m. history st' = history st @ [m] \<and> msgRole m = User
                   else history st' = history st"
      using hist by (auto split: if_splits)
    ultimately show ?thesis by (intro exI [of _ "?head @ new"]) blast
  qed
qed

section \<open>Planner: one iteration and the loop\<close>

lemma firstTurn_facts [simp]:
  "events (firstTurn task iteration snap st) = events st"
  "world (firstTurn task iteration snap st) = world st"
  "iteration > 0 \<Longrightarrow> firstTurn task iteration snap st = st"
  by (simp_all add: firstTurn_def)

lemma trimmed_facts [simp]:
  "events (trimmed st) = events st" "world (trimmed st) = world st"
  "history (trimmed st) = trimConversation (history st) 14"
  by (simp_all add: trimmed_def)

lemma closeBatch_replan [simp]: "closeBatch env p True st = st"
  by (simp add: closeBatch_def)

lemma closeBatch_final:
  "\<exists>s w new. closeBatch env p False st
      = push (verificationTurn (psAction (last (steps p))) s) (after st w new) \<and> verifyEvents new"
proof -
  from acquireVerify_shape [of env st]
  obtain s w new where "acquireVerify env st = (s, after st w new)" "verifyEvents new" by blast
  then show ?thesis by (auto simp: closeBatch_def)
qed

lemma closeBatch_events:
  "\<exists>new. events (closeBatch env p rp st) = events st @ new \<and> list_all batchEvent new"
proof (cases rp)
  case True
  then show ?thesis by (intro exI [of _ "[]"]) simp
next
  case False
  from closeBatch_final [of env p st]
  obtain s w new where "closeBatch env p False st
      = push (verificationTurn (psAction (last (steps p))) s) (after st w new)" "verifyEvents new"
    by blast
  with False verifyEvents_batch [of new] show ?thesis by (intro exI [of _ new]) simp
qed

lemma acquireInitial_shape:
  "acquireInitial env st = (r, st1) \<Longrightarrow>
   \<exists>w new. st1 = after st w new \<and>
     (new = [EvGetSnapshot r] \<or> (\<exists>e1. new = [EvGetSnapshot (Inl e1), EvSleep 1000, EvGetSnapshot r]))"
proof -
  assume run: "acquireInitial env st = (r, st1)"
  obtain r1 w1 where g1: "getSnapshot env (world st) = (r1, w1)"
    by (cases "getSnapshot env (world st)")
  show ?thesis
  proof (cases r1)
    case (Inr s)
    with g1 run acquireInitial_ok [of env st s w1] show ?thesis by auto
  next
    case (Inl e1)
    obtain r2 w2 where g2: "getSnapshot env w1 = (r2, w2)"
      by (cases "getSnapshot env w1")
    with g1 Inl run acquireInitial_retry [of env st e1 w1 r2 w2] show ?thesis by auto
  qed
qed

text \<open>The four ways through one iteration.\<close>

lemma plannerIteration_cases:
  obtains (unreadable) retryError st1 where
      "acquireInitial env st = (Inl retryError, st1)"
      "plannerIteration env decode task iteration st
         = Done (emit (EvOnError (''Cannot read page: '' @ retryError
                  @ ''. The content script may not be loaded on this page.'')) st1)"
  | (noPlan) snap st1 msg st3 where
      "acquireInitial env st = (Inr snap, st1)"
      "getPlanFromLLM env decode 0 None (firstTurn task iteration snap st1) = (Inl msg, st3)"
      "plannerIteration env decode task iteration st
         = Done (emit (EvOnError (''Failed to get plan: '' @ msg)) st3)"
  | (complete) snap st1 p st3 where
      "acquireInitial env st = (Inr snap, st1)"
      "getPlanFromLLM env decode 0 None (firstTurn task iteration snap st1) = (Inr p, st3)"
      "steps p = []"
      "plannerIteration env decode task iteration st
         = Done (emit (EvOnComplete (reasoning p)) (emit (EvOnPlan p) st3))"
  | (batch) snap st1 p st3 needsReplan st5 where
      "acquireInitial env st = (Inr snap, st1)"
      "getPlanFromLLM env decode 0 None (firstTurn task iteration snap st1) = (Inr p, st3)"
      "steps p \<noteq> []"
      "executeSteps env (steps p) 0 (length (steps p)) (emit (EvOnPlan p) st3) = (needsReplan, st5)"
      "plannerIteration env decode task iteration st = Again (trimmed (closeBatch env p needsReplan st5))"
proof -
  obtain r st1 where acq: "acquireInitial env st = (r, st1)"
    by (cases "acquireInitial env st")
  show thesis
  proof (cases r)
    case (Inl retryError)
    with acq have "plannerIteration env decode task iteration st
         = Done (emit (EvOnError (''Cannot read page: '' @ retryError
                  @ ''. The content script may not be loaded on this page.'')) st1)"
      by (simp add: plannerIteration_def)
    with acq Inl show thesis by (intro unreadable [of retryError st1]) simp_all
  next
    case (Inr snap)
    note acq' = acq [unfolded Inr]
    obtain r3 st3 where gp: "getPlanFromLLM env decode 0 None (firstTurn task iteration snap st1) = (r3, st3)"
      by (cases "getPlanFromLLM env decode 0 None (firstTurn task iteration snap st1)")
    show thesis
    proof (cases r3)
      case (Inl msg)
      with acq' gp have "plannerIteration env decode task iteration st
         = Done (emit (EvOnError (''Failed to get plan: '' @ msg)) st3)"
        by (simp add: plannerIteration_def firstTurn_def Let_def)
      with acq' gp Inl show thesis by (intro noPlan [of snap st1 msg st3]) simp_all
    next
      case (Inr p)
      note gp' = gp [unfolded Inr]
      show thesis
      proof (cases "steps p = []")
        case True
        with acq' gp' have "plannerIteration env decode task iteration st
           = Done (emit (EvOnComplete (reasoning p)) (emit (EvOnPlan p) st3))"
          by (simp add: plannerIteration_def firstTurn_def Let_def)
        with acq' gp' True show thesis by (intro complete [of snap st1 p st3])
      next
        case False
        obtain rp st5 where ex:
          "executeSteps env (steps p) 0 (length (steps p)) (emit (EvOnPlan p) st3) = (rp, st5)"
          by (cases "executeSteps env (steps p) 0 (length (steps p)) (emit (EvOnPlan p) st3)")
        with acq' gp' False have "plannerIteration env decode task iteration st
           = Again (trimmed (closeBatch env p rp st5))"
          by (simp add: plannerIteration_def firstTurn_def Let_def closeBatch_def trimmed_def
                   split: prod.splits)
        with acq' gp' False ex show thesis by (intro batch [of snap st1 p st3 rp st5])
      qed
    qed
  qed
qed

lemma quiet_not_completes: "quiet decode e \<Longrightarrow> \<not> completes decode e \<and> \<not> isOnComplete e"
  by (cases e) (auto simp: quiet_def completes_def isOnComplete_def split: sum.splits)

lemma quiet_all_not_completes:
  "list_all (quiet decode) evs \<Longrightarrow> \<not> list_ex (completes decode) evs \<and> \<not> list_ex isOnComplete evs"
  by (induction evs) (auto dest: quiet_not_completes)

lemma batchEvent_quiet: "list_all batchEvent evs \<Longrightarrow> list_all (quiet decode) evs"
proof (induction evs)
  case Nil
  then show ?case by simp
next
  case (Cons e evs)
  then show ?case by (cases e) (auto simp: batchEvent_def)
qed

lemma completedShape_prepend:
  "list_all (quiet decode) head \<Longrightarrow> completedShape decode new \<Longrightarrow> completedShape decode (head @ new)"
proof -
  assume h: "list_all (quiet decode) head" and "completedShape decode new"
  then obtain pre msgs resp p u where
    new: "new = pre @ [EvChat msgs (Inr resp)] @ u @ [EvOnPlan p, EvOnComplete (reasoning p)]"
    and rest: "list_all (quiet decode) pre" "parsePlan decode (respContent resp) = Inr p" "steps p = []"
      "usageOnly u"
    unfolding completedShape_def by blast
  from new have "head @ new = (head @ pre) @ [EvChat msgs (Inr resp)] @ u @ [EvOnPlan p, EvOnComplete (reasoning p)]"
    by simp
  moreover from h rest(1) have "list_all (quiet decode) (head @ pre)" by simp
  ultimately show ?thesis
    unfolding completedShape_def using rest(2-4) by blast
qed

lemma acquireInitial_events:
  "acquireInitial env st = (r, st1) \<Longrightarrow>
   \<exists>new. events st1 = events st @ new \<and> history st1 = history st \<and> list_all batchEvent new"
  by (drule acquireInitial_shape) auto

lemma plannerIteration_events:
  "\<exists>new. events (outcomeState (plannerIteration env decode task it st)) = events st @ new \<and>
     (case plannerIteration env decode task it st of
        Again st' \<Rightarrow> list_all (quiet decode) new
      | Done st' \<Rightarrow> list_all (quiet decode) new \<or> completedShape decode new)"
proof (rule plannerIteration_cases [of env st decode task it])
  fix retryError st1
  assume acq: "acquireInitial env st = (Inl retryError, st1)"
    and out: "plannerIteration env decode task it st
         = Done (emit (EvOnError (''Cannot read page: '' @ retryError
                  @ ''. The content script may not be loaded on this page.'')) st1)"
  from acquireInitial_events [OF acq] obtain new1 where
    e1: "events st1 = events st @ new1" and b1: "list_all batchEvent new1" by blast
  let ?new = "new1 @ [EvOnError (''Cannot read page: '' @ retryError
                  @ ''. The content script may not be loaded on this page.'')]"
  have "list_all (quiet decode) ?new" using batchEvent_quiet [OF b1, of decode] by simp
  with e1 out show ?thesis by (intro exI [of _ ?new]) simp
next
  fix snap st1 msg st3
  assume acq: "acquireInitial env st = (Inr snap, st1)"
    and gp: "getPlanFromLLM env decode 0 None (firstTurn task it snap st1) = (Inl msg, st3)"
    and out: "plannerIteration env decode task it st
         = Done (emit (EvOnError (''Failed to get plan: '' @ msg)) st3)"
  from acquireInitial_events [OF acq] obtain new1 where
    e1: "events st1 = events st @ new1" and b1: "list_all batchEvent new1" by blast
  from getPlanFromLLM_events [OF gp] obtain new3 where
    e3: "events st3 = events (firstTurn task it snap st1) @ new3" and q3: "list_all (quiet decode) new3"
    by auto
  let ?new = "new1 @ new3 @ [EvOnError (''Failed to get plan: '' @ msg)]"
  have "list_all (quiet decode) ?new" using batchEvent_quiet [OF b1, of decode] q3 by simp
  moreover have "events (emit (EvOnError (''Failed to get plan: '' @ msg)) st3) = events st @ ?new"
    using e1 e3 by simp
  ultimately show ?thesis using out by (intro exI [of _ ?new]) simp
next
  fix snap st1 p st3
  assume acq: "acquireInitial env st = (Inr snap, st1)"
    and gp: "getPlanFromLLM env decode 0 None (firstTurn task it snap st1) = (Inr p, st3)"
    and empty: "steps p = []"
    and out: "plannerIteration env decode task it st
         = Done (emit (EvOnComplete (reasoning p)) (emit (EvOnPlan p) st3))"
  from acquireInitial_events [OF acq] obtain new1 where
    e1: "events st1 = events st @ new1" and b1: "list_all batchEvent new1" by blast
  from getPlanFromLLM_events [OF gp] obtain new3 pre msgs resp u where
    e3: "events st3 = events (firstTurn task it snap st1) @ new3"
    and new3: "new3 = pre @ [EvChat msgs (Inr resp)] @ u"
    and rest: "list_all (quiet decode) pre" "parsePlan decode (respContent resp) = Inr p" "usageOnly u"
    by auto
  let ?tail = "new3 @ [EvOnPlan p, EvOnComplete (reasoning p)]"
  have "completedShape decode ?tail"
    unfolding completedShape_def using new3 rest empty by auto
  with batchEvent_quiet [OF b1, of decode] have "completedShape decode (new1 @ ?tail)"
    by (rule completedShape_prepend)
  moreover have "events (emit (EvOnComplete (reasoning p)) (emit (EvOnPlan p) st3)) = events st @ new1 @ ?tail"
    using e1 e3 by simp
  ultimately show ?thesis using out by (intro exI [of _ "new1 @ ?tail"]) simp
next
  fix snap st1 p st3 needsReplan st5
  assume acq: "acquireInitial env st = (Inr snap, st1)"
    and gp: "getPlanFromLLM env decode 0 None (firstTurn task it snap st1) = (Inr p, st3)"
    and nonempty: "steps p \<noteq> []"
    and ex: "executeSteps env (steps p) 0 (length (steps p)) (emit (EvOnPlan p) st3) = (needsReplan, st5)"
    and out: "plannerIteration env decode task it st = Again (trimmed (closeBatch env p needsReplan st5))"
  from acquireInitial_events [OF acq] obtain new1 where
    e1: "events st1 = events st @ new1" and b1: "list_all batchEvent new1" by blast
  from getPlanFromLLM_events [OF gp] obtain new3 pre msgs resp u where
    e3: "events st3 = events (firstTurn task it snap st1) @ new3"
    and new3: "new3 = pre @ [EvChat msgs (Inr resp)] @ u"
    and rest: "list_all (quiet decode) pre" "parsePlan decode (respContent resp) = Inr p" "usageOnly u"
    by auto
  have q3: "list_all (quiet decode) new3"
    using new3 rest nonempty by (simp add: quiet_chat usageOnly_quiet)
  from executeSteps_trace [OF ex] obtain new5 where
    e5: "events st5 = events (emit (EvOnPlan p) st3) @ new5" and b5: "list_all batchEvent new5"
    by blast
  from closeBatch_events [of env p needsReplan st5] obtain new6 where
    e6: "events (closeBatch env p needsReplan st5) = events st5 @ new6" and b6: "list_all batchEvent new6"
    by blast
  let ?new = "new1 @ new3 @ [EvOnPlan p] @ new5 @ new6"
  have "list_all (quiet decode) ?new"
    using batchEvent_quiet [OF b1, of decode] q3 batchEvent_quiet [OF b5, of decode]
      batchEvent_quiet [OF b6, of decode] by simp
  moreover have "events (trimmed (closeBatch env p needsReplan st5)) = events st @ ?new"
    using e1 e3 e5 e6 by simp
  ultimately show ?thesis using out by (intro exI [of _ ?new]) simp
qed

lemma plannerLoop_events:
  "\<exists>new. events (plannerLoop env decode task it st) = events st @ new \<and>
     (list_all (quiet decode) new \<or> completedShape decode new)"
proof (induction "MAX_ITERATIONS - it" arbitrary: it st)
  case 0
  then have "\<not> it < MAX_ITERATIONS" by simp
  then have "plannerLoop env decode task it st
      = emit (EvOnError (''Max iterations ('' @ showNat MAX_ITERATIONS
                   @ '') reached. Task may be incomplete.'')) st"
    by (simp add: plannerLoop.simps [of env decode task it st])
  then show ?case
    by (intro exI [of _ "[EvOnError (''Max iterations ('' @ showNat MAX_ITERATIONS
                   @ '') reached. Task may be incomplete.'')]"]) simp
next
  case (Suc k)
  then have lt: "it < MAX_ITERATIONS" by simp
  from plannerIteration_events [of env decode task it st]
  obtain new where ev: "events (outcomeState (plannerIteration env decode task it st)) = events st @ new"
    and kind: "case plannerIteration env decode task it st of
        Again st' \<Rightarrow> list_all (quiet decode) new
      | Done st' \<Rightarrow> list_all (quiet decode) new \<or> completedShape decode new"
    by blast
  show ?case
  proof (cases "plannerIteration env decode task it st")
    case (Done st')
    with lt have "plannerLoop env decode task it st = st'"
      by (simp add: plannerLoop.simps [of env decode task it st])
    with ev kind Done show ?thesis by auto
  next
    case (Again st')
    with lt have loop: "plannerLoop env decode task it st = plannerLoop env decode task (it + 1) st'"
      by (simp add: plannerLoop.simps [of env decode task it st])
    from Again ev kind have ev': "events st' = events st @ new" and q: "list_all (quiet decode) new"
      by simp_all
    have "k = MAX_ITERATIONS - (it + 1)" using Suc.hyps(2) by simp
    from Suc.hyps(1) [OF this, of st'] obtain new' where
      e2: "events (plannerLoop env decode task (it + 1) st') = events st' @ new'"
      and k2: "list_all (quiet decode) new' \<or> completedShape decode new'"
      by blast
    from k2 q have "list_all (quiet decode) (new @ new') \<or> completedShape decode (new @ new')"
      by (auto intro: completedShape_prepend)
    with loop e2 ev' show ?thesis by (intro exI [of _ "new @ new'"]) simp
  qed
qed

text \<open>
  C5. Whenever, in a run, the model returns an answer that parses to a plan without steps,
  the trace of the run ends right there: after that answer come at most the usage report,
  then \<^verbatim>\<open>onPlan\<close> and \<^verbatim>\<open>onComplete\<close> with the reasoning of that plan, and nothing else;
  before it there is no other such answer and no completion. So the completion callback is
  invoked exactly once in the run, and neither the model nor an action is called again.
\<close>

theorem C5_empty_plan_completes:
  assumes "list_ex (completes decode) (events (runPlanner env decode systemPrompt task w))"
  shows "(\<exists>pre msgs resp p u.
            events (runPlanner env decode systemPrompt task w)
              = pre @ [EvChat msgs (Inr resp)] @ u @ [EvOnPlan p, EvOnComplete (reasoning p)] \<and>
            parsePlan decode (respContent resp) = Inr p \<and> steps p = [] \<and>
            (u = [] \<or> (\<exists>ti to. u = [EvOnUsage ti to])) \<and>
            \<not> list_ex (completes decode) pre \<and> \<not> list_ex isOnComplete pre) \<and>
         length (filter isOnComplete (events (runPlanner env decode systemPrompt task w))) = 1"
proof -
  let ?evs = "events (runPlanner env decode systemPrompt task w)"
  from plannerLoop_events [of env decode task 0 "initialState systemPrompt w"]
  obtain new where "?evs = events (initialState systemPrompt w) @ new"
    and kind: "list_all (quiet decode) new \<or> completedShape decode new"
    by (auto simp: runPlanner_def)
  then have new: "?evs = new" by (simp add: initialState_def)
  from assms new quiet_all_not_completes [of decode new] kind have "completedShape decode new"
    by auto
  then obtain pre msgs resp p u where
    shape: "new = pre @ [EvChat msgs (Inr resp)] @ u @ [EvOnPlan p, EvOnComplete (reasoning p)]"
    and rest: "list_all (quiet decode) pre" "parsePlan decode (respContent resp) = Inr p" "steps p = []"
      "usageOnly u"
    unfolding completedShape_def by blast
  from quiet_all_not_completes [OF rest(1)]
  have pre: "\<not> list_ex (completes decode) pre" "\<not> list_ex isOnComplete pre" by simp_all
  from rest(4) have u: "u = [] \<or> (\<exists>ti to. u = [EvOnUsage ti to])"
    by (simp add: usageOnly_def)
  from pre(2) have "filter isOnComplete pre = []"
    by (simp add: list_ex_iff filter_empty_conv)
  moreover from u have "filter isOnComplete u = []"
    by (auto simp: isOnComplete_def)
  ultimately have "length (filter isOnComplete new) = 1"
    by (simp add: shape isOnComplete_def)
  then have count: "length (filter isOnComplete ?evs) = 1"
    by (simp only: new)
  from shape have "?evs = pre @ [EvChat msgs (Inr resp)] @ u @ [EvOnPlan p, EvOnComplete (reasoning p)]"
    by (simp only: new)
  with rest(2,3) u pre have "\<exists>pre msgs resp p u.
            ?evs = pre @ [EvChat msgs (Inr resp)] @ u @ [EvOnPlan p, EvOnComplete (reasoning p)] \<and>
            parsePlan decode (respContent resp) = Inr p \<and> steps p = [] \<and>
            (u = [] \<or> (\<exists>ti to. u = [EvOnUsage ti to])) \<and>
            \<not> list_ex (completes decode) pre \<and> \<not> list_ex isOnComplete pre"
    by blast
  with count show ?thesis
    by (rule conjI [rotated])
qed

theorem C5_empty_plan_witness:
  "map eventTag (events (runPlanner scriptedEnv sampleDecode ''SYS'' ''click the Go button'' retryWorld))
     = [''snapshot'', ''chat 2: two clicks'', ''onPlan'', ''onStepStart 0'', ''action ok'',
        ''onStepComplete'', ''sleep'', ''snapshot'', ''snapshot'', ''chat 4: oops'',
        ''chat 6: done'', ''onPlan'', ''onComplete: Done. Clicked Go.''] \<and>
   length (filter isOnComplete
     (events (runPlanner scriptedEnv sampleDecode ''SYS'' ''click the Go button'' retryWorld))) = 1"
proof -
  let ?evs = "events (runPlanner scriptedEnv sampleDecode ''SYS'' ''click the Go button'' retryWorld)"
  have "list_ex (completes sampleDecode) ?evs"
    by code_simp
  from C5_empty_plan_completes [OF this] have "length (filter isOnComplete ?evs) = 1"
    by blast
  moreover have "map eventTag ?evs
     = [''snapshot'', ''chat 2: two clicks'', ''onPlan'', ''onStepStart 0'', ''action ok'',
        ''onStepComplete'', ''sleep'', ''snapshot'', ''snapshot'', ''chat 4: oops'',
        ''chat 6: done'', ''onPlan'', ''onComplete: Done. Clicked Go.'']"
    by code_simp
  ultimately show ?thesis
    by blast
qed

section \<open>Planner: trimming, and what follows a failed step\<close>

lemma trimConversation_cases:
  obtains (kept) "trimConversation h m = h"
  | (cut) k where "k > 2" "int k = int (length h) - (m - 2)" "int (length h) > m"
      "trimConversation h m = take 2 h @ drop k h"
proof (cases "int (length h) \<le> m \<or> int (length h) - (m - 2) \<le> 2")
  case True
  then have "trimConversation h m = h"
    by (auto simp: trimConversation_def Let_def)
  then show thesis by (rule kept)
next
  case False
  let ?k = "nat (int (length h) - (m - 2))"
  from False have k: "?k > 2" "int ?k = int (length h) - (m - 2)" "int (length h) > m"
    by auto
  from False have "trimConversation h m = spliceOut 2 (nat (int (length h) - (m - 2) - 2)) h"
    by (auto simp: trimConversation_def Let_def)
  also have "\<dots> = take 2 h @ drop (2 + nat (int (length h) - (m - 2) - 2)) h"
    by (simp only: spliceOut_def)
  also have "2 + nat (int (length h) - (m - 2) - 2) = ?k"
    using k(1) by arith
  finally have "trimConversation h m = take 2 h @ drop ?k h" .
  then show thesis using k by (intro cut [of ?k])
qed

lemma take2_keep: "k \<ge> 2 \<Longrightarrow> take 2 (take 2 h @ drop k h) = take 2 h"
  by (cases "length h \<ge> 2") auto

lemma trimConversation_take2: "take 2 (trimConversation h m) = take 2 h"
proof (rule trimConversation_cases [of h m])
  assume "trimConversation h m = h"
  then show ?thesis by simp
next
  fix k :: nat
  assume "k > 2" and eq: "trimConversation h m = take 2 h @ drop k h"
  then have "k \<ge> 2" by simp
  from take2_keep [OF this, of h] eq show ?thesis by simp
qed

lemma trimConversation_shape: "\<exists>k\<ge>2. trimConversation h m = take 2 h @ drop k h"
proof (rule trimConversation_cases [of h m])
  assume "trimConversation h m = h"
  then have "trimConversation h m = take 2 h @ drop 2 h" by simp
  then show ?thesis by blast
next
  fix k :: nat
  assume "k > 2" "trimConversation h m = take 2 h @ drop k h"
  then show ?thesis by (intro exI [of _ k]) simp
qed





section \<open>Planner: the pinned head of the conversation\<close>

lemma pinned_append: "pinned a b h \<Longrightarrow> pinned a b (h @ ms)"
  by (cases h; cases "tl h") (auto simp: pinned_def)

lemma pinned_trim: "pinned a b h \<Longrightarrow> pinned a b (trimConversation h m)"
  by (simp add: pinned_def trimConversation_take2)

lemma chatsPinned_append [simp]: "chatsPinned a b (xs @ ys) = (chatsPinned a b xs \<and> chatsPinned a b ys)"
  by (simp add: chatsPinned_def)

lemma chatsPinned_nil [simp]: "chatsPinned a b []"
  by (simp add: chatsPinned_def)

lemma waiting_chatsPinned: "pinned a b msgs \<Longrightarrow> list_all (waiting msgs) evs \<Longrightarrow> chatsPinned a b evs"
proof (induction evs)
  case Nil
  then show ?case by simp
next
  case (Cons e evs)
  then show ?case by (cases e) (auto simp: chatsPinned_def waiting_def split: sum.splits)
qed

lemma usageOnly_chatsPinned: "usageOnly u \<Longrightarrow> chatsPinned a b u"
  by (auto simp: usageOnly_def chatsPinned_def)

lemma batchEvent_chatsPinned: "list_all batchEvent evs \<Longrightarrow> chatsPinned a b evs"
proof (induction evs)
  case Nil
  then show ?case by simp
next
  case (Cons e evs)
  then show ?case by (cases e) (auto simp: chatsPinned_def batchEvent_def)
qed

lemma popCorrective_assistant: "h \<noteq> [] \<Longrightarrow> msgRole (last h) = Assistant \<Longrightarrow> popCorrective h = h"
  using popCorrective.simps [of h] by simp

lemma popCorrective_snoc:
  "popCorrective (h @ [c]) = h @ [c] \<or> popCorrective (h @ [c]) = popCorrective h"
proof -
  have "popCorrective (h @ [c]) =
     (if length (h @ [c]) > 1 \<and> msgRole (last (h @ [c])) = User
         \<and> str_includes (content (last (h @ [c]))) ''not valid JSON''
      then popCorrective (butlast (h @ [c])) else h @ [c])"
    by (rule popCorrective.simps)
  then show ?thesis
    by (cases "length (h @ [c]) > 1 \<and> msgRole (last (h @ [c])) = User
         \<and> str_includes (content (last (h @ [c]))) ''not valid JSON''") simp_all
qed

lemma withCorrective_history:
  "history (withCorrective ja lpe st) = history st \<or>
   (ja > 0 \<and> (\<exists>c. history (withCorrective ja lpe st) = history st @ [c]))"
  by (auto simp: withCorrective_def split: option.splits)

lemma popCorrective_after_retry:
  assumes pin: "pinned a b (history st)"
    and asst: "msgRole (last (history st)) = Assistant"
  shows "pinned a b (popCorrective (history (withCorrective ja lpe st)))"
proof -
  from pin have ne: "history st \<noteq> []" by (auto simp: pinned_def)
  from withCorrective_history [of ja lpe st] show ?thesis
  proof
    assume "history (withCorrective ja lpe st) = history st"
    with popCorrective_assistant [OF ne asst] pin show ?thesis by simp
  next
    assume "ja > 0 \<and> (\<exists>c. history (withCorrective ja lpe st) = history st @ [c])"
    then obtain c where c: "history (withCorrective ja lpe st) = history st @ [c]" by blast
    from popCorrective_snoc [of "history st" c] popCorrective_assistant [OF ne asst] c pin
    show ?thesis by (auto intro: pinned_append)
  qed
qed

lemma withCorrective_pinned: "pinned a b (history st) \<Longrightarrow> pinned a b (history (withCorrective ja lpe st))"
  using withCorrective_history [of ja lpe st] by (auto intro: pinned_append)

lemma chatsPinned_chat [simp]: "chatsPinned a b (EvChat m cr # es) = (pinned a b m \<and> chatsPinned a b es)"
  by (simp add: chatsPinned_def)

lemma getPlanFromLLM_pinned:
  assumes "getPlanFromLLM env decode ja lpe st = (r, st')"
    and "pinned a b (history st)"
    and "ja > 0 \<longrightarrow> msgRole (last (history st)) = Assistant"
  shows "pinned a b (history st') \<and> (\<exists>new. events st' = events st @ new \<and> chatsPinned a b new)"
  using assms
proof (induction "Suc MAX_JSON_RETRIES - ja" arbitrary: ja lpe st r st')
  case 0
  then have big: "ja > MAX_JSON_RETRIES" by simp
  from "0.prems"(1) show ?case
  proof (cases rule: getPlanFromLLM_cases)
    case unreachable
    with "0.prems"(2) show ?thesis by (auto intro: exI [of _ "[]"])
  qed (use big in simp_all)
next
  case (Suc k)
  let ?st1 = "withCorrective ja lpe st"
  let ?msgs = "history ?st1"
  note pin = Suc.prems(2)
  have pin1: "pinned a b ?msgs" using pin by (rule withCorrective_pinned)
  from Suc.prems(1) show ?case
  proof (cases rule: getPlanFromLLM_cases)
    case unreachable
    with pin show ?thesis by (auto intro: exI [of _ "[]"])
  next
    case (apiError msg)
    from callLLMWithRetry_err [OF apiError(2)]
    obtain w new where st': "st' = after ?st1 w new" and q: "list_all (waiting ?msgs) new"
      by blast
    from st' have "events st' = events st @ new" "history st' = ?msgs" by simp_all
    with pin1 waiting_chatsPinned [OF pin1 q] show ?thesis by auto
  next
    case (parsed response st2 p)
    from callLLMWithRetry_ok [OF parsed(2)]
    obtain w new pre where st2: "st2 = after ?st1 w new"
      and new: "new = pre @ [EvChat ?msgs (Inr response)]" and q: "list_all (waiting ?msgs) pre"
      by blast
    from addUsage_facts [of response st2]
    obtain u where u: "usageOnly u" "events (addUsage response st2) = events st2 @ u"
      "history (addUsage response st2) = history st2"
      by blast
    have e2: "events st2 = events st @ new" and h2: "history st2 = ?msgs" by (simp_all add: st2)
    have "events st' = events (addUsage response st2)" by (simp add: parsed(5))
    with u(2) e2 have ev: "events st' = events st @ new @ u" by simp
    have cp: "chatsPinned a b (new @ u)"
      using new waiting_chatsPinned [OF pin1 q] pin1 usageOnly_chatsPinned [OF u(1)] by simp
    have "pinned a b (history st')"
    proof (cases "ja > 0")
      case True
      with Suc.prems(3) have "msgRole (last (history st)) = Assistant" by simp
      from popCorrective_after_retry [OF pin this, of ja lpe]
      have "pinned a b (popCorrective ?msgs)" .
      with True u(3) h2 show ?thesis by (simp add: parsed(5) pinned_append)
    next
      case False
      with u(3) h2 pin1 show ?thesis by (simp add: parsed(5) pinned_append)
    qed
    with ev cp show ?thesis by blast
  next
    case (gaveUp response st2 parseError)
    from callLLMWithRetry_ok [OF gaveUp(2)]
    obtain w new pre where st2: "st2 = after ?st1 w new"
      and new: "new = pre @ [EvChat ?msgs (Inr response)]" and q: "list_all (waiting ?msgs) pre"
      by blast
    from addUsage_facts [of response st2]
    obtain u where u: "usageOnly u" "events (addUsage response st2) = events st2 @ u"
      "history (addUsage response st2) = history st2"
      by blast
    have e2: "events st2 = events st @ new" and h2: "history st2 = ?msgs" by (simp_all add: st2)
    have "events st' = events (addUsage response st2)" by (simp add: gaveUp(5))
    with u(2) e2 have ev: "events st' = events st @ new @ u" by simp
    have cp: "chatsPinned a b (new @ u)"
      using new waiting_chatsPinned [OF pin1 q] pin1 usageOnly_chatsPinned [OF u(1)] by simp
    have "pinned a b (history st')"
      using u(3) h2 pin1 by (simp add: gaveUp(5) pinned_append)
    with ev cp show ?thesis by blast
  next
    case (again response st2 parseError)
    from callLLMWithRetry_ok [OF again(2)]
    obtain w new pre where st2: "st2 = after ?st1 w new"
      and new: "new = pre @ [EvChat ?msgs (Inr response)]" and q: "list_all (waiting ?msgs) pre"
      by blast
    from addUsage_facts [of response st2]
    obtain u where u: "usageOnly u" "events (addUsage response st2) = events st2 @ u"
      "history (addUsage response st2) = history st2"
      by blast
    let ?st4 = "push \<lparr>msgRole = Assistant, content = respContent response\<rparr> (addUsage response st2)"
    have e2: "events st2 = events st @ new" and h2: "history st2 = ?msgs" by (simp_all add: st2)
    have "events ?st4 = events (addUsage response st2)" by simp
    with u(2) e2 have ev4: "events ?st4 = events st @ new @ u" by simp
    have cp: "chatsPinned a b (new @ u)"
      using new waiting_chatsPinned [OF pin1 q] pin1 usageOnly_chatsPinned [OF u(1)] by simp
    have pin4: "pinned a b (history ?st4)"
      using u(3) h2 pin1 by (simp add: pinned_append)
    have asst4: "ja + 1 > 0 \<longrightarrow> msgRole (last (history ?st4)) = Assistant" by simp
    have k: "k = Suc MAX_JSON_RETRIES - (ja + 1)" using Suc.hyps(2) by simp
    from Suc.hyps(1) [OF k again(4) pin4 asst4]
    obtain new' where "pinned a b (history st')" "events st' = events ?st4 @ new'" "chatsPinned a b new'"
      by blast
    with ev4 cp have "pinned a b (history st')" "events st' = events st @ (new @ u @ new')"
      "chatsPinned a b (new @ u @ new')"
      by simp_all
    then show ?thesis by blast
  qed
qed

lemma executeSteps_pinned:
  assumes "executeSteps env todo i n st = (rp, st')" and "pinned a b (history st)"
  shows "pinned a b (history st') \<and> (\<exists>new. events st' = events st @ new \<and> chatsPinned a b new)"
proof -
  from executeSteps_trace [OF assms(1)] obtain new where
    ev: "events st' = events st @ new" and be: "list_all batchEvent new"
    and hist: "if rp then \<exists>m. history st' = history st @ [m] \<and> msgRole m = User
               else history st' = history st"
    by blast
  from hist assms(2) have "pinned a b (history st')"
    by (auto split: if_splits intro: pinned_append)
  with ev batchEvent_chatsPinned [OF be] show ?thesis by blast
qed

lemma closeBatch_pinned:
  assumes "pinned a b (history st)"
  shows "pinned a b (history (closeBatch env p rp st)) \<and>
         (\<exists>new. events (closeBatch env p rp st) = events st @ new \<and> chatsPinned a b new)"
proof (cases rp)
  case True
  with assms show ?thesis by (auto intro: exI [of _ "[]"])
next
  case False
  from closeBatch_final [of env p st]
  obtain s w new where eq: "closeBatch env p False st
      = push (verificationTurn (psAction (last (steps p))) s) (after st w new)" and v: "verifyEvents new"
    by blast
  from verifyEvents_batch [OF v] have "chatsPinned a b new" by (simp add: batchEvent_chatsPinned)
  with False eq assms show ?thesis by (auto intro: pinned_append)
qed

lemma plannerIteration_core:
  assumes first: "\<And>snap st1. acquireInitial env st = (Inr snap, st1)
                    \<Longrightarrow> pinned a b (history (firstTurn task it snap st1))"
  shows "(\<exists>new. events (outcomeState (plannerIteration env decode task it st)) = events st @ new \<and>
                chatsPinned a b new) \<and>
         ((\<exists>snap st1. acquireInitial env st = (Inr snap, st1)) \<longrightarrow>
             pinned a b (history (outcomeState (plannerIteration env decode task it st)))) \<and>
         ((\<exists>e st1. acquireInitial env st = (Inl e, st1)) \<longrightarrow>
             history (outcomeState (plannerIteration env decode task it st)) = history st)"
proof (rule plannerIteration_cases [of env st decode task it])
  fix retryError st1
  assume acq: "acquireInitial env st = (Inl retryError, st1)"
    and out: "plannerIteration env decode task it st
         = Done (emit (EvOnError (''Cannot read page: '' @ retryError
                  @ ''. The content script may not be loaded on this page.'')) st1)"
  from acquireInitial_events [OF acq] obtain new1 where
    e1: "events st1 = events st @ new1" and h1: "history st1 = history st" and b1: "list_all batchEvent new1"
    by blast
  let ?new = "new1 @ [EvOnError (''Cannot read page: '' @ retryError
                  @ ''. The content script may not be loaded on this page.'')]"
  have "chatsPinned a b ?new" using batchEvent_chatsPinned [OF b1] by (simp add: chatsPinned_def)
  moreover have "events (outcomeState (plannerIteration env decode task it st)) = events st @ ?new"
    using out e1 by simp
  moreover have "history (outcomeState (plannerIteration env decode task it st)) = history st"
    using out h1 by simp
  ultimately show ?thesis using acq by auto
next
  fix snap st1 msg st3
  assume acq: "acquireInitial env st = (Inr snap, st1)"
    and gp: "getPlanFromLLM env decode 0 None (firstTurn task it snap st1) = (Inl msg, st3)"
    and out: "plannerIteration env decode task it st
         = Done (emit (EvOnError (''Failed to get plan: '' @ msg)) st3)"
  from acquireInitial_events [OF acq] obtain new1 where
    e1: "events st1 = events st @ new1" and b1: "list_all batchEvent new1" by blast
  from getPlanFromLLM_pinned [OF gp first [OF acq]] obtain new3 where
    p3: "pinned a b (history st3)" and e3: "events st3 = events (firstTurn task it snap st1) @ new3"
    and c3: "chatsPinned a b new3" by auto
  let ?new = "new1 @ new3 @ [EvOnError (''Failed to get plan: '' @ msg)]"
  have "chatsPinned a b ?new" using batchEvent_chatsPinned [OF b1] c3 by (simp add: chatsPinned_def)
  moreover have "events (outcomeState (plannerIteration env decode task it st)) = events st @ ?new"
    using out e1 e3 by simp
  moreover have "pinned a b (history (outcomeState (plannerIteration env decode task it st)))"
    using out p3 by simp
  ultimately show ?thesis using acq by auto
next
  fix snap st1 p st3
  assume acq: "acquireInitial env st = (Inr snap, st1)"
    and gp: "getPlanFromLLM env decode 0 None (firstTurn task it snap st1) = (Inr p, st3)"
    and out: "plannerIteration env decode task it st
         = Done (emit (EvOnComplete (reasoning p)) (emit (EvOnPlan p) st3))"
  from acquireInitial_events [OF acq] obtain new1 where
    e1: "events st1 = events st @ new1" and b1: "list_all batchEvent new1" by blast
  from getPlanFromLLM_pinned [OF gp first [OF acq]] obtain new3 where
    p3: "pinned a b (history st3)" and e3: "events st3 = events (firstTurn task it snap st1) @ new3"
    and c3: "chatsPinned a b new3" by auto
  let ?new = "new1 @ new3 @ [EvOnPlan p, EvOnComplete (reasoning p)]"
  have "chatsPinned a b ?new" using batchEvent_chatsPinned [OF b1] c3 by (simp add: chatsPinned_def)
  moreover have "events (outcomeState (plannerIteration env decode task it st)) = events st @ ?new"
    using out e1 e3 by simp
  moreover have "pinned a b (history (outcomeState (plannerIteration env decode task it st)))"
    using out p3 by simp
  ultimately show ?thesis using acq by auto
next
  fix snap st1 p st3 needsReplan st5
  assume acq: "acquireInitial env st = (Inr snap, st1)"
    and gp: "getPlanFromLLM env decode 0 None (firstTurn task it snap st1) = (Inr p, st3)"
    and ex: "executeSteps env (steps p) 0 (length (steps p)) (emit (EvOnPlan p) st3) = (needsReplan, st5)"
    and out: "plannerIteration env decode task it st = Again (trimmed (closeBatch env p needsReplan st5))"
  from acquireInitial_events [OF acq] obtain new1 where
    e1: "events st1 = events st @ new1" and b1: "list_all batchEvent new1" by blast
  from getPlanFromLLM_pinned [OF gp first [OF acq]] obtain new3 where
    p3: "pinned a b (history st3)" and e3: "events st3 = events (firstTurn task it snap st1) @ new3"
    and c3: "chatsPinned a b new3" by auto
  from p3 have "pinned a b (history (emit (EvOnPlan p) st3))" by simp
  from executeSteps_pinned [OF ex this] obtain new5 where
    p5: "pinned a b (history st5)" and e5: "events st5 = events (emit (EvOnPlan p) st3) @ new5"
    and c5: "chatsPinned a b new5" by auto
  from closeBatch_pinned [OF p5, of env p needsReplan] obtain new6 where
    p6: "pinned a b (history (closeBatch env p needsReplan st5))"
    and e6: "events (closeBatch env p needsReplan st5) = events st5 @ new6"
    and c6: "chatsPinned a b new6" by auto
  let ?new = "new1 @ new3 @ [EvOnPlan p] @ new5 @ new6"
  have "chatsPinned a b ?new"
    using batchEvent_chatsPinned [OF b1] c3 c5 c6 by (simp add: chatsPinned_def)
  moreover have "events (outcomeState (plannerIteration env decode task it st)) = events st @ ?new"
    using out e1 e3 e5 e6 by simp
  moreover have "pinned a b (history (outcomeState (plannerIteration env decode task it st)))"
    using out p6 by (simp add: pinned_trim)
  ultimately show ?thesis using acq by auto
qed

lemma plannerLoop_pinned:
  assumes "0 < it" and "pinned a b (history st)"
  shows "pinned a b (history (plannerLoop env decode task it st)) \<and>
         (\<exists>new. events (plannerLoop env decode task it st) = events st @ new \<and> chatsPinned a b new)"
  using assms
proof (induction "MAX_ITERATIONS - it" arbitrary: it st)
  case 0
  then have "\<not> it < MAX_ITERATIONS" by simp
  then have "plannerLoop env decode task it st
      = emit (EvOnError (''Max iterations ('' @ showNat MAX_ITERATIONS
                   @ '') reached. Task may be incomplete.'')) st"
    by (simp add: plannerLoop.simps [of env decode task it st])
  with "0.prems"(2) show ?case
    by (auto simp: chatsPinned_def)
next
  case (Suc k)
  then have lt: "it < MAX_ITERATIONS" by simp
  let ?out = "plannerIteration env decode task it st"
  have first: "pinned a b (history (firstTurn task it snap st1))"
    if "acquireInitial env st = (Inr snap, st1)" for snap st1
    using acquireInitial_events [OF that] Suc.prems by auto
  obtain r st1 where acq: "acquireInitial env st = (r, st1)"
    by (cases "acquireInitial env st")
  from plannerIteration_core [of env st a b task it decode, OF first]
  obtain new where ev: "events (outcomeState ?out) = events st @ new" and cp: "chatsPinned a b new"
    and readable: "(\<exists>snap st1. acquireInitial env st = (Inr snap, st1)) \<longrightarrow> pinned a b (history (outcomeState ?out))"
    and unreadable: "(\<exists>e st1. acquireInitial env st = (Inl e, st1)) \<longrightarrow> history (outcomeState ?out) = history st"
    by blast
  have pin: "pinned a b (history (outcomeState ?out))"
    using acq readable unreadable Suc.prems(2) by (cases r) auto
  show ?case
  proof (cases ?out)
    case (Done st')
    with lt have "plannerLoop env decode task it st = st'"
      by (simp add: plannerLoop.simps [of env decode task it st])
    with Done ev cp pin show ?thesis by auto
  next
    case (Again st')
    with lt have loop: "plannerLoop env decode task it st = plannerLoop env decode task (it + 1) st'"
      by (simp add: plannerLoop.simps [of env decode task it st])
    from Again ev pin have ev': "events st' = events st @ new" and pin': "pinned a b (history st')"
      by simp_all
    have k: "k = MAX_ITERATIONS - (it + 1)" using Suc.hyps(2) by simp
    have pos: "0 < it + 1" by simp
    from Suc.hyps(1) [OF k pos pin'] obtain new' where
      "pinned a b (history (plannerLoop env decode task (it + 1) st'))"
      "events (plannerLoop env decode task (it + 1) st') = events st' @ new'" "chatsPinned a b new'"
      by blast
    with loop ev' cp have "pinned a b (history (plannerLoop env decode task it st))"
      "events (plannerLoop env decode task it st) = events st @ (new @ new')"
      "chatsPinned a b (new @ new')"
      by simp_all
    then show ?thesis by blast
  qed
qed

lemma runPlanner_pinned:
  assumes acq: "acquireInitial env (initialState systemPrompt w) = (Inr snap, st1)"
  shows "pinned \<lparr>msgRole = System, content = systemPrompt\<rparr>
                \<lparr>msgRole = User, content = buildUserMessage task (formatSnapshot snap)\<rparr>
                (history (runPlanner env decode systemPrompt task w)) \<and>
         chatsPinned \<lparr>msgRole = System, content = systemPrompt\<rparr>
                \<lparr>msgRole = User, content = buildUserMessage task (formatSnapshot snap)\<rparr>
                (events (runPlanner env decode systemPrompt task w))"
proof -
  let ?a = "\<lparr>msgRole = System, content = systemPrompt\<rparr>"
  let ?b = "\<lparr>msgRole = User, content = buildUserMessage task (formatSnapshot snap)\<rparr>"
  let ?st = "initialState systemPrompt w"
  let ?out = "plannerIteration env decode task 0 ?st"
  have first: "pinned ?a ?b (history (firstTurn task 0 snap' st1'))"
    if "acquireInitial env ?st = (Inr snap', st1')" for snap' st1'
  proof -
    from that acq have "snap' = snap" "st1' = st1" by simp_all
    moreover from acquireInitial_events [OF acq] have "history st1 = history ?st" by blast
    ultimately show ?thesis by (simp add: firstTurn_def initialState_def pinned_def)
  qed
  from plannerIteration_core [of env ?st ?a ?b task 0 decode, OF first] acq
  obtain new where ev: "events (outcomeState ?out) = events ?st @ new" and cp: "chatsPinned ?a ?b new"
    and pin: "pinned ?a ?b (history (outcomeState ?out))"
    by blast
  have e0: "events ?st = []" by (simp add: initialState_def)
  have lt: "0 < MAX_ITERATIONS" by (simp add: MAX_ITERATIONS_def)
  show ?thesis
  proof (cases ?out)
    case (Done st')
    with lt have "runPlanner env decode systemPrompt task w = st'"
      by (simp add: runPlanner_def plannerLoop.simps [of env decode task 0 ?st])
    with Done ev cp pin e0 show ?thesis by simp
  next
    case (Again st')
    with lt have loop: "runPlanner env decode systemPrompt task w = plannerLoop env decode task 1 st'"
      by (simp add: runPlanner_def plannerLoop.simps [of env decode task 0 ?st])
    from Again ev pin e0 have ev': "events st' = new" and pin': "pinned ?a ?b (history st')"
      by simp_all
    from plannerLoop_pinned [of 1 ?a ?b st' env decode task, OF _ pin'] obtain new' where
      "pinned ?a ?b (history (plannerLoop env decode task 1 st'))"
      "events (plannerLoop env decode task 1 st') = events st' @ new'" "chatsPinned ?a ?b new'"
      by auto
    with loop ev' cp show ?thesis by simp
  qed
qed

lemma runPlanner_unreadable:
  assumes acq: "acquireInitial env (initialState systemPrompt w) = (Inl e, st1)"
  shows "history (runPlanner env decode systemPrompt task w) = [\<lparr>msgRole = System, content = systemPrompt\<rparr>]"
proof -
  let ?st = "initialState systemPrompt w"
  have lt: "0 < MAX_ITERATIONS" by (simp add: MAX_ITERATIONS_def)
  from acquireInitial_events [OF acq] have h1: "history st1 = history ?st" by blast
  from plannerIteration_unreadable [OF acq, of decode task 0] lt
  have "history (plannerLoop env decode task 0 ?st) = history st1"
    by (simp add: plannerLoop.simps [of env decode task 0 ?st])
  with h1 have "history (runPlanner env decode systemPrompt task w) = history ?st"
    by (simp add: runPlanner_def)
  then show ?thesis
    by (simp add: initialState_def)
qed

text \<open>
  The planner with \<^verbatim>\<open>trimConversation\<close> keeps the system prompt and the task message.
  Trimming leaves the first two messages as they are, and what it returns is those two
  followed by a final stretch of the conversation, so it only removes messages from index 2 on
  and keeps the most recent ones. Over a whole run, with all its trims: the conversation starts
  with the system prompt; and once the first page snapshot has been read, the first two
  messages of the conversation at the end of the run, and of the conversation sent with every
  model call of the run, are the system prompt and the original task message.
\<close>

lemma trimConversation_pins_system_and_task:
  "take 2 (trimConversation h m) = take 2 h \<and>
   (\<exists>k\<ge>2. trimConversation h m = take 2 h @ drop k h) \<and>
   hd (history (runPlanner env decode systemPrompt task w))
     = \<lparr>msgRole = System, content = systemPrompt\<rparr> \<and>
   (\<forall>snap st1. acquireInitial env (initialState systemPrompt w) = (Inr snap, st1) \<longrightarrow>
      take 2 (history (runPlanner env decode systemPrompt task w))
        = [\<lparr>msgRole = System, content = systemPrompt\<rparr>,
           \<lparr>msgRole = User, content = buildUserMessage task (formatSnapshot snap)\<rparr>] \<and>
      (\<forall>msgs cr. EvChat msgs cr \<in> set (events (runPlanner env decode systemPrompt task w)) \<longrightarrow>
         take 2 msgs = [\<lparr>msgRole = System, content = systemPrompt\<rparr>,
                        \<lparr>msgRole = User, content = buildUserMessage task (formatSnapshot snap)\<rparr>]))"
proof -
  let ?a = "\<lparr>msgRole = System, content = systemPrompt\<rparr>"
  let ?run = "runPlanner env decode systemPrompt task w"
  have pinned_run: "take 2 (history ?run) = [?a, \<lparr>msgRole = User, content = buildUserMessage task (formatSnapshot snap)\<rparr>] \<and>
      (\<forall>msgs cr. EvChat msgs cr \<in> set (events ?run) \<longrightarrow>
         take 2 msgs = [?a, \<lparr>msgRole = User, content = buildUserMessage task (formatSnapshot snap)\<rparr>])"
    if "acquireInitial env (initialState systemPrompt w) = (Inr snap, st1)" for snap st1
  proof -
    let ?b = "\<lparr>msgRole = User, content = buildUserMessage task (formatSnapshot snap)\<rparr>"
    from runPlanner_pinned [OF that, of task decode]
    have pin: "pinned ?a ?b (history ?run)" and cp: "chatsPinned ?a ?b (events ?run)"
      by simp_all
    have "take 2 msgs = [?a, ?b]" if "EvChat msgs cr \<in> set (events ?run)" for msgs cr
      using cp that by (auto simp: chatsPinned_def list_all_iff pinned_def)
    with pin show ?thesis by (simp add: pinned_def)
  qed
  have "hd (history ?run) = ?a"
  proof -
    obtain r st1 where acq: "acquireInitial env (initialState systemPrompt w) = (r, st1)"
      by (cases "acquireInitial env (initialState systemPrompt w)")
    show ?thesis
    proof (cases r)
      case (Inl e)
      with acq runPlanner_unreadable [of env systemPrompt w e st1 decode task] show ?thesis by simp
    next
      case (Inr snap)
      with acq pinned_run [of snap st1] have "take 2 (history ?run)
         = [?a, \<lparr>msgRole = User, content = buildUserMessage task (formatSnapshot snap)\<rparr>]"
        by simp
      then show ?thesis by (cases "history ?run") (auto split: if_splits)
    qed
  qed
  with trimConversation_take2 [of h m] trimConversation_shape [of h m] pinned_run show ?thesis
    by blast
qed

lemma trimConversation_pins_example:
  "take 2 (history (runPlanner scriptedEnv sampleDecode ''SYS'' ''click the Go button'' longWorld))
     = [\<lparr>msgRole = System, content = ''SYS''\<rparr>,
        \<lparr>msgRole = User, content = buildUserMessage ''click the Go button'' (formatSnapshot goSnapshot)\<rparr>] \<and>
   length (history (runPlanner scriptedEnv sampleDecode ''SYS'' ''click the Go button'' longWorld)) = 15"
proof -
  let ?st = "initialState ''SYS'' longWorld"
  let ?run = "runPlanner scriptedEnv sampleDecode ''SYS'' ''click the Go button'' longWorld"
  have "fst (acquireInitial scriptedEnv ?st) = Inr goSnapshot"
    by code_simp
  then have acq: "acquireInitial scriptedEnv ?st = (Inr goSnapshot, snd (acquireInitial scriptedEnv ?st))"
    by (metis prod.collapse)
  from trimConversation_pins_system_and_task [of _ _ scriptedEnv sampleDecode "''SYS''" "''click the Go button''" longWorld] acq
  have a: "take 2 (history ?run)
     = [\<lparr>msgRole = System, content = ''SYS''\<rparr>,
        \<lparr>msgRole = User, content = buildUserMessage ''click the Go button'' (formatSnapshot goSnapshot)\<rparr>]"
    by blast
  have b: "length (history ?run) = 15"
    by code_simp
  from a b show ?thesis
    by blast
qed

section \<open>Planner: the trim of \<^verbatim>\<open>index.ts\<close>\<close>

text \<open>Whenever the inline trim removes anything, it removes the message at index 1.\<close>

lemma inlineTrim_drops_task:
  assumes "length h > 12"
  shows "inlineTrim h = hd h # drop (length h - 10) h"
proof -
  from assms obtain x xs where h: "h = x # xs" by (cases h) auto
  with assms have "spliceOut 1 (length h - 11) h = x # drop (length h - 10) h"
    by (simp add: spliceOut_def Suc_diff_le drop_Cons')
  with assms h show ?thesis by (simp add: inlineTrim_def)
qed

text \<open>
  A run of \<^verbatim>\<open>runPlanner\<close> of \<^verbatim>\<open>index.ts\<close> on the page with one button, the model answering
  with one click seven times and then with the empty plan. The run returns normally. The
  first six model calls are sent conversations of 2, 4, \<open>\<dots>\<close>, 12 messages; the sixth
  iteration ends with the conversation \<open>sixRounds\<close>, which is trimmed; the seventh call is
  sent the trimmed conversation, in which the task message no longer occurs, and it does not
  occur in the conversation at the end of the run either.
\<close>

lemma runPlannerIndex_loses_task:
  "(case runPlannerIndex scriptedEnv sampleDecode ''SYS'' ''click the Go button'' longWorld of
      (thrown, st) \<Rightarrow>
        thrown = None \<and>
        map length (chatMessages (events st)) = [2, 4, 6, 8, 10, 12, 11, 11] \<and>
        chatMessages (events st) ! 0 ! 1 = goTask \<and>
        chatMessages (events st) ! 6 = inlineTrim sixRounds \<and>
        goTask \<notin> set (chatMessages (events st) ! 6) \<and>
        goTask \<notin> set (history st))"
  by code_simp

text \<open>
  C6, on the planner of \<^verbatim>\<open>index.ts\<close>. The conversation \<open>sixRounds\<close> has 14 messages, the
  system prompt at index 0 and the original task message at index 1. The trim at the end of the
  iteration, \<^verbatim>\<open>conversationHistory.splice(1, conversationHistory.length - 11)\<close>, keeps the
  system prompt and removes the messages at indices 1 to 3: afterwards index 1 holds the
  model's second answer, and the task message is nowhere in the conversation.
\<close>

theorem C6_inline_trim_drops_task:
  "length sixRounds = 14 \<and>
   sixRounds ! 0 = \<lparr>msgRole = System, content = ''SYS''\<rparr> \<and>
   sixRounds ! 1 = goTask \<and>
   inlineTrim sixRounds = sixRounds ! 0 # drop 4 sixRounds \<and>
   inlineTrim sixRounds ! 1 = \<lparr>msgRole = Assistant, content = ''one click''\<rparr> \<and>
   goTask \<notin> set (inlineTrim sixRounds)"
  by code_simp

end
